theory Spec2Isabelle
  imports Main "HOL-Library.Word"
begin

unbundle bit_operations_syntax

section \<open>ringbuffer.h: events and the ring buffer\<close>

text \<open>
  \<open>uint32_t\<close> is a 32-bit word. \<open>LONG\<close> is the 32-bit signed integer of Windows: it is kept
  as its bit pattern (a 32-bit word, \<open>sint\<close> reads the signed value), \<open>+\<close> wraps as the
  compiled code does, and \<open>==\<close> / \<open>!=\<close> on two LONGs compare bit patterns. In
  \<open>(head + 1) & rb->mask\<close> the LONG is converted to unsigned for the \<open>&\<close> and the result
  converted back, which leaves the bits as they are.
\<close>

type_synonym uint32_t = "32 word"
type_synonym LONG = "32 word"

definition HOOK_EVENT_KEYBOARD :: uint32_t where
  "HOOK_EVENT_KEYBOARD = 1"

definition HOOK_EVENT_MOUSE :: uint32_t where
  "HOOK_EVENT_MOUSE = 2"

text \<open>
  \<open>HookEvent\<close>: the discriminator (as the raw enum value: zeroed memory holds 0, which is
  neither enumerator), the timestamp, and the four 32-bit words of the anonymous union:
  \<open>keyboard.vkCode\<close> / \<open>mouse.x\<close> is \<open>u0\<close>, \<open>keyboard.scanCode\<close> / \<open>mouse.y\<close> is \<open>u1\<close>,
  \<open>keyboard.flags\<close> / \<open>mouse.mouseData\<close> is \<open>u2\<close>, and \<open>action\<close> of both is \<open>u3\<close>.
\<close>

record HookEvent =
  ev_type :: uint32_t
  timestamp_ms :: uint32_t
  u0 :: uint32_t
  u1 :: uint32_t
  u2 :: uint32_t
  u3 :: uint32_t

text \<open>A slot of memory obtained with \<open>HEAP_ZERO_MEMORY\<close>.\<close>

definition zero_event :: HookEvent where
  "zero_event = \<lparr>ev_type = 0, timestamp_ms = 0, u0 = 0, u1 = 0, u2 = 0, u3 = 0\<rparr>"

text \<open>The event that \<open>LowLevelKeyboardProc\<close> builds from a \<open>KBDLLHOOKSTRUCT\<close> and \<open>wParam\<close>.\<close>

definition keyboard_event :: "uint32_t \<Rightarrow> uint32_t \<Rightarrow> uint32_t \<Rightarrow> uint32_t \<Rightarrow> uint32_t \<Rightarrow> HookEvent" where
  "keyboard_event time vkCode scanCode flags wParam =
     \<lparr>ev_type = HOOK_EVENT_KEYBOARD, timestamp_ms = time,
      u0 = vkCode, u1 = scanCode, u2 = flags, u3 = wParam\<rparr>"

text \<open>
  \<open>RingBuffer\<close>. The \<open>buffer\<close> pointer and the block it points to are one field: \<open>None\<close> is
  the NULL pointer, \<open>Some xs\<close> a live block of \<open>length xs\<close> slots (the ring buffer is the
  only owner of the block, so nothing aliases it).
\<close>

record RingBuffer =
  rb_buffer :: "HookEvent list option"
  rb_capacity :: uint32_t
  rb_mask :: uint32_t
  rb_head :: LONG
  rb_tail :: LONG

text \<open>
  The process heap, as far as the code can tell: how many blocks were handed out and how
  many were given back, and the hook handles that are installed at the moment.
\<close>

type_synonym HHOOK = nat

record os_state =
  heap_allocs :: nat
  heap_frees :: nat
  installed :: "HHOOK list"

text \<open>
  \<open>HeapAlloc(GetProcessHeap(), HEAP_ZERO_MEMORY, n * sizeof(HookEvent))\<close>: whether the heap
  satisfies the request is not decided by the program, so it is the argument \<open>ok\<close>. The
  byte count is a \<open>size_t\<close> product, taken not to wrap (64-bit \<open>size_t\<close>).
\<close>

definition HeapAlloc :: "bool \<Rightarrow> nat \<Rightarrow> os_state \<Rightarrow> HookEvent list option \<times> os_state" where
  "HeapAlloc ok n os =
     (if ok then (Some (replicate n zero_event), os\<lparr>heap_allocs := heap_allocs os + 1\<rparr>)
      else (None, os))"

definition HeapFree :: "os_state \<Rightarrow> os_state" where
  "HeapFree os = os\<lparr>heap_frees := heap_frees os + 1\<rparr>"

text \<open>
  Memory faults. The C code checks neither the pointer nor the index; a NULL or
  out-of-range access is a fault of the model instead of an unspecified value.
\<close>

datatype fault = NullPointer | OutOfBounds

definition buffer_load :: "HookEvent list option \<Rightarrow> nat \<Rightarrow> fault + HookEvent" where
  "buffer_load b i =
     (case b of None \<Rightarrow> Inl NullPointer
      | Some xs \<Rightarrow> if i < length xs then Inr (xs ! i) else Inl OutOfBounds)"

definition buffer_store :: "HookEvent list option \<Rightarrow> nat \<Rightarrow> HookEvent \<Rightarrow> fault + HookEvent list option" where
  "buffer_store b i v =
     (case b of None \<Rightarrow> Inl NullPointer
      | Some xs \<Rightarrow> if i < length xs then Inr (Some (xs[i := v])) else Inl OutOfBounds)"

subsection \<open>RingBuffer_Init\<close>

text \<open>
  The rounding loop \<open>while (capacity < requestedCapacity) capacity <<= 1;\<close> on
  \<open>uint32_t\<close>. The shift drops the top bit, so the loop need not terminate: \<open>None\<close> is
  "does not return".
\<close>

partial_function (option) RingBuffer_Init_loop :: "uint32_t \<Rightarrow> uint32_t \<Rightarrow> uint32_t option" where
  "RingBuffer_Init_loop capacity requestedCapacity =
     (if capacity < requestedCapacity
      then RingBuffer_Init_loop (push_bit 1 capacity) requestedCapacity
      else Some capacity)"

declare RingBuffer_Init_loop.simps [code]

definition RingBuffer_Init ::
  "bool \<Rightarrow> RingBuffer \<Rightarrow> uint32_t \<Rightarrow> os_state \<Rightarrow> (bool \<times> RingBuffer \<times> os_state) option" where
  "RingBuffer_Init ok rb requestedCapacity os =
     (case RingBuffer_Init_loop 1 requestedCapacity of
        None \<Rightarrow> None
      | Some capacity \<Rightarrow>
          (case HeapAlloc ok (unat capacity) os of
             (b, os') \<Rightarrow>
               let rb1 = rb\<lparr>rb_buffer := b\<rparr> in
               if b = None then Some (False, rb1, os')
               else Some (True,
                          rb1\<lparr>rb_capacity := capacity, rb_mask := capacity - 1,
                              rb_head := 0, rb_tail := 0\<rparr>,
                          os')))"

subsection \<open>RingBuffer_Destroy\<close>

definition RingBuffer_Destroy :: "RingBuffer \<Rightarrow> os_state \<Rightarrow> RingBuffer \<times> os_state" where
  "RingBuffer_Destroy rb os =
     (if rb_buffer rb \<noteq> None then (rb\<lparr>rb_buffer := None\<rparr>, HeapFree os) else (rb, os))"

subsection \<open>RingBuffer_Write\<close>

text \<open>
  With no other thread running, \<open>InterlockedCompareExchange(&x, 0, 0)\<close> reads \<open>x\<close>, and
  \<open>InterlockedCompareExchange(&rb->tail, v, tail)\<close> right after \<open>tail\<close> was read stores
  \<open>v\<close>.
\<close>

definition RingBuffer_Write :: "RingBuffer \<Rightarrow> HookEvent \<Rightarrow> fault + RingBuffer" where
  "RingBuffer_Write rb evt =
     (let head = rb_head rb;
          nextHead = (head + 1) AND rb_mask rb;
          tail = rb_tail rb;
          rb1 = (if nextHead = tail then rb\<lparr>rb_tail := (tail + 1) AND rb_mask rb\<rparr> else rb)
      in case buffer_store (rb_buffer rb1) (unat (head AND rb_mask rb1)) evt of
           Inl f \<Rightarrow> Inl f
         | Inr b \<Rightarrow> Inr (rb1\<lparr>rb_buffer := b, rb_head := nextHead\<rparr>))"

subsection \<open>RingBuffer_ReadBatch\<close>

text \<open>
  The copy loop. \<open>out\<close> is \<open>outEvents[0 .. count)\<close>, the events copied so far, in the
  order of their indices.
\<close>

function ReadBatch_loop ::
  "RingBuffer \<Rightarrow> uint32_t \<Rightarrow> LONG \<Rightarrow> LONG \<Rightarrow> uint32_t \<Rightarrow> HookEvent list
     \<Rightarrow> fault + (LONG \<times> uint32_t \<times> HookEvent list)" where
  "ReadBatch_loop rb maxEvents head tail count out =
     (if tail \<noteq> head \<and> count < maxEvents then
        (case buffer_load (rb_buffer rb) (unat (tail AND rb_mask rb)) of
           Inl f \<Rightarrow> Inl f
         | Inr e \<Rightarrow>
             ReadBatch_loop rb maxEvents head ((tail + 1) AND rb_mask rb) (count + 1) (out @ [e]))
      else Inr (tail, count, out))"
  by pat_completeness auto
termination
proof (relation "measure (\<lambda>(rb, maxEvents, head, tail, count, out). unat maxEvents - unat count)")
  show "wf (measure (\<lambda>(rb, maxEvents, head, tail, count, out). unat maxEvents - unat count))"
    by simp
next
  fix rb :: RingBuffer and maxEvents head tail count :: "32 word" and out :: "HookEvent list"
    and x2 :: HookEvent
  assume "tail \<noteq> head \<and> count < maxEvents"
  then have lt: "unat count < unat maxEvents"
    by (simp add: word_less_nat_alt)
  have "unat maxEvents < 2 ^ 32"
    using unsigned_less [of maxEvents] by simp
  with lt have "unat (count + 1) = unat count + 1"
    by (simp add: unat_word_ariths)
  with lt show "((rb, maxEvents, head, (tail + 1) AND rb_mask rb, count + 1, out @ [x2]),
          (rb, maxEvents, head, tail, count, out))
        \<in> measure (\<lambda>(rb, maxEvents, head, tail, count, out). unat maxEvents - unat count)"
    by simp
qed

declare ReadBatch_loop.simps [simp del]

definition RingBuffer_ReadBatch ::
  "RingBuffer \<Rightarrow> uint32_t \<Rightarrow> fault + (uint32_t \<times> HookEvent list \<times> RingBuffer)" where
  "RingBuffer_ReadBatch rb maxEvents =
     (case ReadBatch_loop rb maxEvents (rb_head rb) (rb_tail rb) 0 [] of
        Inl f \<Rightarrow> Inl f
      | Inr (tail, count, out) \<Rightarrow>
          Inr (count, out, if count > 0 then rb\<lparr>rb_tail := tail\<rparr> else rb))"

section \<open>hook.c: the hook DLL\<close>

text \<open>
  The two calls into the hook subsystem of the OS. What \<open>SetWindowsHookExW\<close> returns
  (a handle, or NULL, here \<open>None\<close>) is decided by the OS, so it is the argument \<open>reply\<close>;
  a handle that was returned is installed until \<open>UnhookWindowsHookEx\<close> removes it.
\<close>

definition SetWindowsHookExW :: "HHOOK option \<Rightarrow> os_state \<Rightarrow> HHOOK option \<times> os_state" where
  "SetWindowsHookExW reply os =
     (case reply of
        None \<Rightarrow> (None, os)
      | Some h \<Rightarrow> (Some h, os\<lparr>installed := h # installed os\<rparr>))"

definition UnhookWindowsHookEx :: "HHOOK \<Rightarrow> os_state \<Rightarrow> os_state" where
  "UnhookWindowsHookEx h os = os\<lparr>installed := remove1 h (installed os)\<rparr>"

text \<open>The globals of hook.c, together with the state of the OS they refer to.\<close>

record hook_dll =
  g_keyboardHook :: "HHOOK option"
  g_mouseHook :: "HHOOK option"
  g_ringBuffer :: RingBuffer
  g_initialized :: bool
  osys :: os_state

text \<open>What the OS answers during one call of \<open>HookDll_Initialize\<close>.\<close>

record os_replies =
  alloc_ok :: bool
  keyboard_reply :: "HHOOK option"
  mouse_reply :: "HHOOK option"

subsection \<open>HookDll_Initialize\<close>

definition HookDll_Initialize :: "os_replies \<Rightarrow> uint32_t \<Rightarrow> hook_dll \<Rightarrow> (bool \<times> hook_dll) option" where
  "HookDll_Initialize env bufferCapacity s =
     (if g_initialized s then Some (True, s)
      else
        (case RingBuffer_Init (alloc_ok env) (g_ringBuffer s) bufferCapacity (osys s) of
           None \<Rightarrow> None
         | Some (ok, rb, os1) \<Rightarrow>
             if \<not> ok then Some (False, s\<lparr>g_ringBuffer := rb, osys := os1\<rparr>)
             else
               (case SetWindowsHookExW (keyboard_reply env) os1 of (kb, os2) \<Rightarrow>
                (case SetWindowsHookExW (mouse_reply env) os2 of (ms, os3) \<Rightarrow>
                   if kb = None \<or> ms = None then
                     (let os4 = (case kb of Some h \<Rightarrow> UnhookWindowsHookEx h os3 | None \<Rightarrow> os3);
                          os5 = (case ms of Some h \<Rightarrow> UnhookWindowsHookEx h os4 | None \<Rightarrow> os4)
                      in case RingBuffer_Destroy rb os5 of (rb', os6) \<Rightarrow>
                           Some (False, s\<lparr>g_keyboardHook := None, g_mouseHook := None,
                                          g_ringBuffer := rb', osys := os6\<rparr>))
                   else
                     Some (True, s\<lparr>g_keyboardHook := kb, g_mouseHook := ms,
                                   g_ringBuffer := rb, g_initialized := True, osys := os3\<rparr>)))))"

subsection \<open>HookDll_Shutdown\<close>

definition HookDll_Shutdown :: "hook_dll \<Rightarrow> hook_dll" where
  "HookDll_Shutdown s =
     (if \<not> g_initialized s then s
      else
        (let s1 = s\<lparr>g_initialized := False\<rparr>;
             s2 = (case g_keyboardHook s1 of
                     Some h \<Rightarrow> s1\<lparr>g_keyboardHook := None, osys := UnhookWindowsHookEx h (osys s1)\<rparr>
                   | None \<Rightarrow> s1);
             s3 = (case g_mouseHook s2 of
                     Some h \<Rightarrow> s2\<lparr>g_mouseHook := None, osys := UnhookWindowsHookEx h (osys s2)\<rparr>
                   | None \<Rightarrow> s2)
         in case RingBuffer_Destroy (g_ringBuffer s3) (osys s3) of
              (rb', os') \<Rightarrow> s3\<lparr>g_ringBuffer := rb', osys := os'\<rparr>))"

section \<open>Sequences of calls\<close>

text \<open>A sequence of \<open>RingBuffer_Write\<close> calls, one per event, in the order of the list.\<close>

fun write_all :: "RingBuffer \<Rightarrow> HookEvent list \<Rightarrow> fault + RingBuffer" where
  "write_all rb [] = Inr rb"
| "write_all rb (e # es) =
     (case RingBuffer_Write rb e of Inl f \<Rightarrow> Inl f | Inr rb' \<Rightarrow> write_all rb' es)"

text \<open>A sequence of writes and batch reads (what a read returns is dropped here).\<close>

datatype rb_call = Write HookEvent | ReadBatch uint32_t

fun run_calls :: "RingBuffer \<Rightarrow> rb_call list \<Rightarrow> fault + RingBuffer" where
  "run_calls rb [] = Inr rb"
| "run_calls rb (Write e # cs) =
     (case RingBuffer_Write rb e of Inl f \<Rightarrow> Inl f | Inr rb' \<Rightarrow> run_calls rb' cs)"
| "run_calls rb (ReadBatch n # cs) =
     (case RingBuffer_ReadBatch rb n of Inl f \<Rightarrow> Inl f | Inr (_, _, rb') \<Rightarrow> run_calls rb' cs)"

text \<open>
  The events a ring buffer retains: what one \<open>RingBuffer_ReadBatch\<close> asking for
  \<open>capacity\<close> events would copy out.
\<close>

definition unread :: "RingBuffer \<Rightarrow> HookEvent list" where
  "unread rb =
     (case RingBuffer_ReadBatch rb (rb_capacity rb) of
        Inl f \<Rightarrow> []
      | Inr (count, out, rb') \<Rightarrow> out)"

text \<open>The state a ring buffer is in between calls, once \<open>RingBuffer_Init\<close> has succeeded.\<close>

definition rb_wf :: "RingBuffer \<Rightarrow> bool" where
  "rb_wf rb \<longleftrightarrow>
     (\<exists>k \<le> 31. rb_capacity rb = 2 ^ k \<and> rb_mask rb = 2 ^ k - 1
        \<and> (case rb_buffer rb of None \<Rightarrow> False | Some xs \<Rightarrow> length xs = 2 ^ k)
        \<and> unat (rb_head rb) < 2 ^ k \<and> unat (rb_tail rb) < 2 ^ k)"

text \<open>
  The slots a reader walks over: \<open>n\<close> slots of the block \<open>xs\<close> from index \<open>t\<close> on, wrapping
  at the end of the block; and the number of slots from index \<open>t\<close> up to index \<open>h\<close>.
\<close>

definition ring_slots :: "'a list \<Rightarrow> nat \<Rightarrow> nat \<Rightarrow> 'a list" where
  "ring_slots xs t n = map (\<lambda>i. xs ! ((t + i) mod length xs)) [0..<n]"

definition ring_dist :: "nat \<Rightarrow> nat \<Rightarrow> nat \<Rightarrow> nat" where
  "ring_dist C t h = (h + C - t) mod C"

definition rb_contents :: "RingBuffer \<Rightarrow> HookEvent list" where
  "rb_contents rb =
     (case rb_buffer rb of
        None \<Rightarrow> []
      | Some xs \<Rightarrow>
          ring_slots xs (unat (rb_tail rb))
            (ring_dist (length xs) (unat (rb_tail rb)) (unat (rb_head rb))))"

section \<open>Index arithmetic\<close>

lemma mod_shift_inj:
  fixes C :: nat
  assumes "i < C" "j < C" "(t + i) mod C = (t + j) mod C"
  shows "i = j"
proof -
  have aux: "a = b" if "a \<le> b" "b < C" "(t + a) mod C = (t + b) mod C" for a b
  proof -
    from that have "C dvd (t + b) - (t + a)"
      by (metis mod_eq_dvd_iff_nat add_le_cancel_left)
    then have "C dvd b - a" by simp
    with that show ?thesis
      by (metis dvd_imp_le less_imp_diff_less not_le zero_less_diff le_neq_implies_less)
  qed
  show ?thesis
  proof (cases "i \<le> j")
    case True with assms aux show ?thesis by blast
  next
    case False with assms aux [of j i] show ?thesis by simp
  qed
qed

lemma ring_dist_less: "0 < C \<Longrightarrow> ring_dist C t h < C"
  by (simp add: ring_dist_def)

lemma ring_dist_sound:
  assumes "t < C" "h < C"
  shows "(t + ring_dist C t h) mod C = h"
proof -
  have "(t + ring_dist C t h) mod C = (t + (h + C - t)) mod C"
    by (simp add: ring_dist_def mod_add_right_eq)
  also from assms have "t + (h + C - t) = h + C" by simp
  finally show ?thesis using assms by simp
qed

lemma ring_dist_unique:
  assumes "t < C" "h < C" "d < C" "(t + d) mod C = h"
  shows "ring_dist C t h = d"
proof (rule mod_shift_inj [of _ C _ t])
  from assms show "ring_dist C t h < C" by (simp add: ring_dist_less)
  show "d < C" by fact
  from assms show "(t + ring_dist C t h) mod C = (t + d) mod C"
    by (simp add: ring_dist_sound)
qed

lemma length_ring_slots: "length (ring_slots xs t n) = n"
  by (simp add: ring_slots_def)

lemma ring_slots_0: "ring_slots xs t 0 = []"
  by (simp add: ring_slots_def)

lemma ring_slots_snoc:
  "ring_slots xs t (Suc n) = ring_slots xs t n @ [xs ! ((t + n) mod length xs)]"
  by (simp add: ring_slots_def)

lemma ring_slots_Cons:
  "ring_slots xs t (Suc n) = xs ! (t mod length xs) # ring_slots xs ((t + 1) mod length xs) n"
proof -
  have "[0..<Suc n] = 0 # map Suc [0..<n]"
    by (simp add: upt_conv_Cons map_Suc_upt del: upt_Suc)
  then show ?thesis
    by (simp add: ring_slots_def comp_def mod_add_left_eq mod_Suc_eq del: upt_Suc)
qed

lemma ring_slots_update:
  assumes "\<forall>i<n. (t + i) mod length xs \<noteq> h"
  shows "ring_slots (xs[h := e]) t n = ring_slots xs t n"
  using assms by (auto simp: ring_slots_def intro!: nth_list_update_neq)

lemma take_ring_slots: "take m (ring_slots xs t n) = ring_slots xs t (min m n)"
  by (simp add: ring_slots_def take_map min_def)

lemma pow2_le_31: "k \<le> 31 \<Longrightarrow> (2::nat) ^ k \<le> 2 ^ 31"
  by (rule power_increasing) simp_all

lemma unat_pow2_32:
  assumes "k \<le> 31"
  shows "unat (2 ^ k :: 32 word) = 2 ^ k"
proof -
  have "(2::nat) ^ k < 2 ^ 32"
    using pow2_le_31 [OF assms] by simp
  moreover have "unat (2 ^ k :: 32 word) = 2 ^ k mod 2 ^ 32"
    using unsigned_push_bit_eq [of k "1 :: 32 word", where ?'a = nat]
    by (simp add: push_bit_eq_mult take_bit_eq_mod)
  ultimately show ?thesis by simp
qed

lemma unat_and_mask32:
  fixes x :: "32 word"
  shows "unat (x AND (2 ^ k - 1)) = unat x mod 2 ^ k"
proof -
  have "x AND (2 ^ k - 1) = take_bit k x"
    by (simp only: take_bit_eq_mask mask_eq_decr_exp)
  moreover have "unat (take_bit k x) = unat x mod 2 ^ k"
    by (simp only: unsigned_take_bit_eq) (simp only: take_bit_eq_mod)
  ultimately show ?thesis by (simp only:)
qed

lemma unat_succ_small:
  fixes x :: "32 word"
  assumes "unat x < 2 ^ k" "k \<le> 31"
  shows "unat (x + 1) = unat x + 1"
proof -
  from assms pow2_le_31 [of k] have "unat x + 1 < 2 ^ 32" by simp
  then show ?thesis by (simp add: unat_word_ariths)
qed

lemma unat_next_index:
  fixes x :: "32 word"
  assumes "unat x < 2 ^ k" "k \<le> 31"
  shows "unat ((x + 1) AND (2 ^ k - 1)) = (unat x + 1) mod 2 ^ k"
  using assms by (simp add: unat_and_mask32 unat_succ_small)

section \<open>The copy loop of RingBuffer_ReadBatch\<close>

lemma ReadBatch_loop_reads:
  assumes buf: "rb_buffer rb = Some xs" and len: "length xs = 2 ^ k" and k: "k \<le> 31"
    and mask: "rb_mask rb = 2 ^ k - 1"
  shows "unat t < 2 ^ k \<Longrightarrow> unat h < 2 ^ k \<Longrightarrow> d < 2 ^ k \<Longrightarrow> (unat t + d) mod 2 ^ k = unat h
    \<Longrightarrow> unat c \<le> unat m \<Longrightarrow> n = min d (unat m - unat c)
    \<Longrightarrow> \<exists>t' c'. ReadBatch_loop rb m h t c out = Inr (t', c', out @ ring_slots xs (unat t) n)
          \<and> unat t' = (unat t + n) mod 2 ^ k \<and> unat c' = unat c + n"
proof (induction n arbitrary: t c out d)
  case 0
  then have stop: "\<not> (t \<noteq> h \<and> c < m)"
    by (auto simp: word_less_nat_alt min_def word_unat_eq_iff split: if_splits)
  show ?case
    using 0 by (subst ReadBatch_loop.simps) (simp add: stop ring_slots_0)
next
  case (Suc n)
  from Suc.prems obtain d' where d': "d = Suc d'"
    by (cases d) (auto simp: min_def)
  from Suc.prems have cm: "unat c < unat m"
    by (auto simp: min_def split: if_splits)
  then have c_lt: "c < m" by (simp add: word_less_nat_alt)
  have "unat m < 2 ^ 32" using unsigned_less [of m] by simp
  with cm have c1: "unat (c + 1) = unat c + 1"
    by (simp add: unat_word_ariths)
  have ne: "t \<noteq> h"
  proof
    assume "t = h"
    with Suc.prems have "(unat t + d) mod 2 ^ k = (unat t + 0) mod 2 ^ k" by simp
    with Suc.prems have "d = 0" using mod_shift_inj [of d "2 ^ k" 0 "unat t"] by simp
    with d' show False by simp
  qed
  let ?t1 = "(t + 1) AND rb_mask rb"
  have t1: "unat ?t1 = (unat t + 1) mod 2 ^ k"
    using Suc.prems k by (simp add: mask unat_next_index)
  have idx: "unat (t AND rb_mask rb) = unat t"
    using Suc.prems by (simp add: mask unat_and_mask32)
  have load: "buffer_load (rb_buffer rb) (unat (t AND rb_mask rb)) = Inr (xs ! unat t)"
    using Suc.prems by (simp add: buffer_load_def buf len idx)
  have step: "ReadBatch_loop rb m h t c out =
      ReadBatch_loop rb m h ?t1 (c + 1) (out @ [xs ! unat t])"
    by (subst ReadBatch_loop.simps) (simp add: ne c_lt load)
  have "\<exists>t' c'. ReadBatch_loop rb m h ?t1 (c + 1) (out @ [xs ! unat t])
          = Inr (t', c', (out @ [xs ! unat t]) @ ring_slots xs (unat ?t1) n)
        \<and> unat t' = (unat ?t1 + n) mod 2 ^ k \<and> unat (c') = unat (c + 1) + n"
  proof (rule Suc.IH [of ?t1 d' "c + 1"])
    show "unat ?t1 < 2 ^ k" by (simp add: t1)
    show "unat h < 2 ^ k" by fact
    show "d' < 2 ^ k" using Suc.prems d' by simp
    show "(unat ?t1 + d') mod 2 ^ k = unat h"
      using Suc.prems d' by (simp add: t1 mod_add_left_eq)
    show "unat (c + 1) \<le> unat m" using cm c1 by simp
    show "n = min d' (unat m - unat (c + 1))"
    proof -
      from Suc.prems have "Suc n = min (Suc d') (unat m - unat c)" by (simp add: d')
      with cm show ?thesis unfolding c1 min_def by (simp split: if_splits; linarith)
    qed
  qed
  then obtain t' c' where
    r: "ReadBatch_loop rb m h ?t1 (c + 1) (out @ [xs ! unat t])
          = Inr (t', c', (out @ [xs ! unat t]) @ ring_slots xs (unat ?t1) n)"
    and t': "unat t' = (unat ?t1 + n) mod 2 ^ k" and c': "unat c' = unat (c + 1) + n"
    by blast
  have slots: "ring_slots xs (unat t) (Suc n) = xs ! unat t # ring_slots xs (unat ?t1) n"
    using Suc.prems(1) by (simp add: ring_slots_Cons len t1)
  show ?case
    unfolding step slots using r t' c' by (simp add: t1 c1 mod_add_left_eq)
qed

section \<open>RingBuffer_ReadBatch on a ring buffer in use\<close>

lemma drop_ring_slots:
  "drop n (ring_slots xs t d) = ring_slots xs ((t + n) mod length xs) (d - n)"
proof -
  have "drop n [0..<d] = map (\<lambda>i. i + n) [0..<d - n]"
    by (cases "n \<le> d") (simp_all add: map_add_upt)
  moreover have "((t + n) mod length xs + i) mod length xs = (t + (i + n)) mod length xs" for i
    by (simp add: mod_add_left_eq) (simp add: ac_simps)
  ultimately show ?thesis
    by (simp add: ring_slots_def drop_map comp_def)
qed

lemma RingBuffer_ReadBatch_wf:
  assumes wf: "rb_wf rb"
  shows "\<exists>c rb'. RingBuffer_ReadBatch rb m = Inr (c, take (unat m) (rb_contents rb), rb')
           \<and> unat c = min (unat m) (length (rb_contents rb))
           \<and> rb_wf rb' \<and> rb_contents rb' = drop (unat m) (rb_contents rb)
           \<and> rb_capacity rb' = rb_capacity rb \<and> rb_mask rb' = rb_mask rb
           \<and> rb_buffer rb' = rb_buffer rb \<and> rb_head rb' = rb_head rb"
proof -
  from wf obtain k xs where k: "k \<le> 31" and cap: "rb_capacity rb = 2 ^ k"
    and mask: "rb_mask rb = 2 ^ k - 1" and buf: "rb_buffer rb = Some xs"
    and len: "length xs = 2 ^ k" and h: "unat (rb_head rb) < 2 ^ k"
    and t: "unat (rb_tail rb) < 2 ^ k"
    by (auto simp: rb_wf_def split: option.splits)
  let ?t = "unat (rb_tail rb)" and ?h = "unat (rb_head rb)"
  define d where "d = ring_dist (2 ^ k) ?t ?h"
  define n where "n = min d (unat m)"
  have d_lt: "d < 2 ^ k" by (simp add: d_def ring_dist_less)
  have d_ok: "(?t + d) mod 2 ^ k = ?h" using t h by (simp add: d_def ring_dist_sound)
  have cont: "rb_contents rb = ring_slots xs ?t d"
    by (simp add: rb_contents_def buf len d_def)
  from ReadBatch_loop_reads [OF buf len k mask t h d_lt d_ok, of 0 m n "[]"]
  obtain t' c' where
    loop: "ReadBatch_loop rb m (rb_head rb) (rb_tail rb) 0 [] = Inr (t', c', ring_slots xs ?t n)"
    and t': "unat t' = (?t + n) mod 2 ^ k" and c': "unat c' = n"
    by (auto simp: n_def)
  let ?rb' = "if c' > 0 then rb\<lparr>rb_tail := t'\<rparr> else rb"
  have rb'_eq: "?rb' = rb\<lparr>rb_tail := t'\<rparr>"
  proof (cases "c' > 0")
    case True then show ?thesis by simp
  next
    case False
    then have "c' = 0" by (simp add: word_greater_zero_iff)
    with c' have "n = 0" by simp
    with t' t have "t' = rb_tail rb" by (simp add: word_unat_eq_iff)
    then show ?thesis by simp
  qed
  have res: "RingBuffer_ReadBatch rb m = Inr (c', ring_slots xs ?t n, rb\<lparr>rb_tail := t'\<rparr>)"
    using rb'_eq by (simp add: RingBuffer_ReadBatch_def loop)
  have tk: "take (unat m) (rb_contents rb) = ring_slots xs ?t n"
    by (simp add: cont take_ring_slots n_def min.commute)
  have t'_lt: "unat t' < 2 ^ k" by (simp add: t')
  have n_le: "n \<le> d" by (simp add: n_def)
  have "(unat t' + (d - n)) mod 2 ^ k = (?t + n + (d - n)) mod 2 ^ k"
    by (simp add: t' mod_add_left_eq)
  with n_le d_ok have "(unat t' + (d - n)) mod 2 ^ k = ?h" by simp
  with t'_lt h d_lt have dist': "ring_dist (2 ^ k) (unat t') ?h = d - n"
    by (intro ring_dist_unique) simp_all
  have cont': "rb_contents (rb\<lparr>rb_tail := t'\<rparr>) = drop (unat m) (rb_contents rb)"
  proof -
    have "rb_contents (rb\<lparr>rb_tail := t'\<rparr>) = ring_slots xs (unat t') (d - n)"
      by (simp add: rb_contents_def buf len dist')
    also have "\<dots> = drop n (ring_slots xs ?t d)"
      by (simp add: drop_ring_slots len t')
    also have "\<dots> = drop (unat m) (ring_slots xs ?t d)"
      by (simp add: n_def min_def length_ring_slots)
    finally show ?thesis by (simp add: cont)
  qed
  have wf': "rb_wf (rb\<lparr>rb_tail := t'\<rparr>)"
    using k cap mask buf len h t'_lt by (auto simp: rb_wf_def)
  show ?thesis
    using res tk cont' wf' c' by (simp add: n_def cont length_ring_slots min.commute)
qed

section \<open>RingBuffer_Write on a ring buffer in use\<close>

lemma RingBuffer_Write_eq:
  assumes wf: "rb_wf rb" and buf: "rb_buffer rb = Some xs"
  shows "RingBuffer_Write rb e =
     Inr (rb\<lparr>rb_tail := (if (rb_head rb + 1) AND rb_mask rb = rb_tail rb
                           then (rb_tail rb + 1) AND rb_mask rb else rb_tail rb),
             rb_buffer := Some (xs[unat (rb_head rb) := e]),
             rb_head := (rb_head rb + 1) AND rb_mask rb\<rparr>)"
proof -
  from wf buf obtain k where k: "k \<le> 31" and mask: "rb_mask rb = 2 ^ k - 1"
    and len: "length xs = 2 ^ k" and h: "unat (rb_head rb) < 2 ^ k"
    by (auto simp: rb_wf_def)
  have idx: "unat (rb_head rb AND rb_mask rb) = unat (rb_head rb)"
    using h by (simp add: mask unat_and_mask32)
  show ?thesis
    using h by (simp add: RingBuffer_Write_def Let_def buffer_store_def buf idx len)
qed

lemma RingBuffer_Write_wf:
  assumes wf: "rb_wf rb"
  shows "\<exists>rb'. RingBuffer_Write rb e = Inr rb' \<and> rb_wf rb'
           \<and> rb_capacity rb' = rb_capacity rb \<and> rb_mask rb' = rb_mask rb"
proof -
  from wf obtain k xs where k: "k \<le> 31" and cap: "rb_capacity rb = 2 ^ k"
    and mask: "rb_mask rb = 2 ^ k - 1" and buf: "rb_buffer rb = Some xs"
    and len: "length xs = 2 ^ k" and h: "unat (rb_head rb) < 2 ^ k"
    and t: "unat (rb_tail rb) < 2 ^ k"
    by (auto simp: rb_wf_def split: option.splits)
  have nh: "unat ((rb_head rb + 1) AND rb_mask rb) < 2 ^ k"
    by (simp add: mask unat_and_mask32)
  have nt: "unat ((rb_tail rb + 1) AND rb_mask rb) < 2 ^ k"
    by (simp add: mask unat_and_mask32)
  show ?thesis
    unfolding RingBuffer_Write_eq [OF wf buf]
    using k cap mask len t nh nt by (auto simp: rb_wf_def)
qed

lemma RingBuffer_Write_contents:
  assumes wf: "rb_wf rb" and w: "RingBuffer_Write rb e = Inr rb'"
  shows "rb_contents rb' =
     (if (rb_head rb + 1) AND rb_mask rb = rb_tail rb
      then (if rb_capacity rb = 1 then [] else tl (rb_contents rb) @ [e])
      else rb_contents rb @ [e])"
    and "(rb_head rb + 1) AND rb_mask rb = rb_tail rb
           \<Longrightarrow> Suc (length (rb_contents rb)) = unat (rb_capacity rb)"
    and "(rb_head rb + 1) AND rb_mask rb \<noteq> rb_tail rb
           \<Longrightarrow> Suc (length (rb_contents rb)) < unat (rb_capacity rb)"
proof -
  from wf obtain k xs where k: "k \<le> 31" and cap: "rb_capacity rb = 2 ^ k"
    and mask: "rb_mask rb = 2 ^ k - 1" and buf: "rb_buffer rb = Some xs"
    and len: "length xs = 2 ^ k" and h: "unat (rb_head rb) < 2 ^ k"
    and t: "unat (rb_tail rb) < 2 ^ k"
    by (auto simp: rb_wf_def split: option.splits)
  let ?C = "(2::nat) ^ k"
  let ?t = "unat (rb_tail rb)" and ?h = "unat (rb_head rb)"
  let ?nh = "(rb_head rb + 1) AND rb_mask rb" and ?nt = "(rb_tail rb + 1) AND rb_mask rb"
  let ?xs' = "xs[?h := e]"
  define d where "d = ring_dist ?C ?t ?h"
  have ucap: "unat (rb_capacity rb) = ?C" by (simp add: cap unat_pow2_32 k)
  have d_lt: "d < ?C" by (simp add: d_def ring_dist_less)
  have d_ok: "(?t + d) mod ?C = ?h" using t h by (simp add: d_def ring_dist_sound)
  have cont: "rb_contents rb = ring_slots xs ?t d"
    by (simp add: rb_contents_def buf len d_def)
  have unh: "unat ?nh = (?h + 1) mod ?C" using h k by (simp add: mask unat_next_index)
  have unt: "unat ?nt = (?t + 1) mod ?C" using t k by (simp add: mask unat_next_index)
  have next_ok: "(?t + (d + 1)) mod ?C = unat ?nh"
  proof -
    have "(?t + (d + 1)) mod ?C = ((?t + d) mod ?C + 1) mod ?C"
      by (simp add: mod_Suc_eq)
    then show ?thesis by (simp add: d_ok unh)
  qed
  have before: "\<forall>i<d. (?t + i) mod ?C \<noteq> ?h"
  proof (intro allI impI notI)
    fix i assume "i < d" and "(?t + i) mod ?C = ?h"
    with d_ok d_lt have "i = d"
      by (intro mod_shift_inj [of i ?C d ?t]) simp_all
    with \<open>i < d\<close> show False by simp
  qed
  have rb': "rb' = rb\<lparr>rb_tail := (if ?nh = rb_tail rb then ?nt else rb_tail rb),
             rb_buffer := Some ?xs', rb_head := ?nh\<rparr>"
    using w RingBuffer_Write_eq [OF wf buf, of e] by simp
  have full_iff: "?nh = rb_tail rb \<longleftrightarrow> d + 1 = ?C"
  proof
    assume "?nh = rb_tail rb"
    with next_ok have eq: "(?t + (d + 1)) mod ?C = (?t + 0) mod ?C"
      using t by simp
    show "d + 1 = ?C"
    proof (rule ccontr)
      assume "d + 1 \<noteq> ?C"
      with d_lt have "d + 1 < ?C" by simp
      with eq have "d + 1 = 0" by (intro mod_shift_inj [of "d + 1" ?C 0 ?t]) simp_all
      then show False by simp
    qed
  next
    assume dC: "d + 1 = ?C"
    have "(?t + (d + 1)) mod ?C = (?t + ?C) mod ?C" by (simp only: dC)
    also have "\<dots> = ?t" using t by simp
    finally have "unat ?nh = ?t" using next_ok by simp
    then show "?nh = rb_tail rb" by (simp add: word_unat_eq_iff)
  qed
  show "?nh = rb_tail rb \<Longrightarrow> Suc (length (rb_contents rb)) = unat (rb_capacity rb)"
    using full_iff by (simp add: cont length_ring_slots ucap)
  show "?nh \<noteq> rb_tail rb \<Longrightarrow> Suc (length (rb_contents rb)) < unat (rb_capacity rb)"
    using full_iff d_lt by (simp add: cont length_ring_slots ucap)
  show "rb_contents rb' =
     (if ?nh = rb_tail rb
      then (if rb_capacity rb = 1 then [] else tl (rb_contents rb) @ [e])
      else rb_contents rb @ [e])"
  proof (cases "?nh = rb_tail rb")
    case False
    then have d1: "d + 1 < ?C" using full_iff d_lt by simp
    have dist': "ring_dist ?C ?t (unat ?nh) = d + 1"
      using t d1 next_ok by (intro ring_dist_unique) (simp_all add: unh)
    have "rb_contents rb' = ring_slots ?xs' ?t (Suc d)"
      using False by (simp add: rb' rb_contents_def len dist')
    also have "\<dots> = ring_slots ?xs' ?t d @ [?xs' ! ?h]"
      by (simp add: ring_slots_snoc len d_ok)
    also have "ring_slots ?xs' ?t d = ring_slots xs ?t d"
      using before by (intro ring_slots_update) (simp add: len)
    also have "?xs' ! ?h = e" using h by (simp add: len)
    finally show ?thesis using False by (simp add: cont)
  next
    case True
    then have dC: "d + 1 = ?C" using full_iff by simp
    show ?thesis
    proof (cases "k = 0")
      case True
      then have C1: "?C = 1" by simp
      have "ring_dist ?C (unat ?nt) (unat ?nh) = 0"
        by (simp add: C1 ring_dist_def)
      then have "rb_contents rb' = []"
        using \<open>?nh = rb_tail rb\<close> by (simp add: rb' rb_contents_def len ring_slots_0)
      with True \<open>?nh = rb_tail rb\<close> show ?thesis by (simp add: cap)
    next
      case False
      then have "(2::nat) ^ 1 \<le> 2 ^ k" by (intro power_increasing) simp_all
      then have C2: "2 \<le> ?C" by simp
      from False k have capne: "rb_capacity rb \<noteq> 1"
        using unat_pow2_32 [of k] by (auto simp: cap word_unat_eq_iff)
      define n where "n = ?C - 2"
      have d_eq: "d = Suc n" using dC C2 by (simp add: n_def)
      have C_eq: "?C = Suc (Suc n)" using C2 by (simp add: n_def)
      have t_ok: "(unat ?nt + Suc n) mod ?C = ?t"
      proof -
        have "(unat ?nt + Suc n) mod ?C = (?t + 1 + Suc n) mod ?C"
          by (simp only: unt mod_add_left_eq)
        also have "?t + 1 + Suc n = ?t + ?C" by (simp add: C_eq)
        finally show ?thesis using t by simp
      qed
      have dist': "ring_dist ?C (unat ?nt) ?t = Suc n"
        using t t_ok by (intro ring_dist_unique) (simp_all add: unt C_eq)
      have last_idx: "(unat ?nt + n) mod ?C = ?h"
      proof -
        have "(unat ?nt + n) mod ?C = (?t + 1 + n) mod ?C"
          by (simp only: unt mod_add_left_eq)
        with d_ok show ?thesis by (simp add: d_eq)
      qed
      have before': "\<forall>i<n. (unat ?nt + i) mod ?C \<noteq> ?h"
      proof (intro allI impI)
        fix i assume "i < n"
        have "(unat ?nt + i) mod ?C = (?t + 1 + i) mod ?C"
          by (simp only: unt mod_add_left_eq)
        then have "(unat ?nt + i) mod ?C = (?t + Suc i) mod ?C"
          by simp
        moreover have "(?t + Suc i) mod ?C \<noteq> ?h"
        proof -
          from \<open>i < n\<close> d_eq have "Suc i < d" by simp
          with before show ?thesis by blast
        qed
        ultimately show "(unat ?nt + i) mod ?C \<noteq> ?h" by simp
      qed
      have "rb_contents rb' = ring_slots ?xs' (unat ?nt) (Suc n)"
        using True by (simp add: rb' rb_contents_def len dist')
      also have "\<dots> = ring_slots ?xs' (unat ?nt) n @ [?xs' ! ?h]"
        by (simp add: ring_slots_snoc len last_idx)
      also have "ring_slots ?xs' (unat ?nt) n = ring_slots xs (unat ?nt) n"
        using before' by (intro ring_slots_update) (simp add: len)
      also have "?xs' ! ?h = e" using h by (simp add: len)
      finally have new: "rb_contents rb' = ring_slots xs (unat ?nt) n @ [e]" .
      have "rb_contents rb = xs ! ?t # ring_slots xs (unat ?nt) n"
        using t by (simp add: cont d_eq ring_slots_Cons len unt)
      with new True capne show ?thesis by simp
    qed
  qed
qed

section \<open>The rounding loop of RingBuffer_Init\<close>

lemma push_bit_1_pow2: "push_bit 1 (2 ^ k :: 32 word) = 2 ^ Suc k"
  by (simp add: push_bit_eq_mult)

lemma Init_loop_from_pow2:
  assumes n: "unat n \<le> 2 ^ 31"
  shows "k \<le> 31 \<Longrightarrow> \<forall>j<k. 2 ^ j < unat n
    \<Longrightarrow> \<exists>m\<le>31. RingBuffer_Init_loop (2 ^ k) n = Some (2 ^ m)
          \<and> unat n \<le> 2 ^ m \<and> (\<forall>j<m. 2 ^ j < unat n) \<and> k \<le> m"
proof (induction "31 - k" arbitrary: k)
  case 0
  then have k: "k = 31" by simp
  have "\<not> (2 ^ k :: 32 word) < n"
    using n by (simp add: word_less_nat_alt k)
  then have "RingBuffer_Init_loop (2 ^ k) n = Some (2 ^ k)"
    by (subst RingBuffer_Init_loop.simps) simp
  with 0 n show ?case by (intro exI [of _ k]) (simp add: k)
next
  case (Suc x)
  show ?case
  proof (cases "(2 ^ k :: 32 word) < n")
    case True
    then have lt: "2 ^ k < unat n"
      using Suc.prems by (simp add: word_less_nat_alt unat_pow2_32)
    have step: "RingBuffer_Init_loop (2 ^ k) n = RingBuffer_Init_loop (2 ^ Suc k) n"
      using True by (subst RingBuffer_Init_loop.simps) (simp only: if_True push_bit_1_pow2)
    have "\<exists>m\<le>31. RingBuffer_Init_loop (2 ^ Suc k) n = Some (2 ^ m)
          \<and> unat n \<le> 2 ^ m \<and> (\<forall>j<m. 2 ^ j < unat n) \<and> Suc k \<le> m"
    proof (rule Suc.hyps(1))
      show "x = 31 - Suc k" using Suc.hyps(2) by simp
      show "Suc k \<le> 31" using Suc.hyps(2) by simp
      show "\<forall>j<Suc k. 2 ^ j < unat n"
        using Suc.prems lt by (auto simp: less_Suc_eq)
    qed
    then show ?thesis unfolding step by auto
  next
    case False
    then have "unat n \<le> 2 ^ k"
      using Suc.prems by (simp add: word_less_nat_alt unat_pow2_32)
    moreover have "RingBuffer_Init_loop (2 ^ k) n = Some (2 ^ k)"
      using False by (subst RingBuffer_Init_loop.simps) simp
    ultimately show ?thesis using Suc.prems by (intro exI [of _ k]) simp
  qed
qed

lemma Init_loop_returns:
  assumes n: "unat n \<le> 2 ^ 31"
  shows "\<exists>m\<le>31. RingBuffer_Init_loop 1 n = Some (2 ^ m)
          \<and> unat n \<le> 2 ^ m \<and> (\<forall>j<m. 2 ^ j < unat n)"
  using Init_loop_from_pow2 [OF n, of 0] by auto

lemma Init_loop_stuck:
  "RingBuffer_Init_loop c n = Some y
     \<Longrightarrow> \<not> (2 ^ 31 < unat n \<and> (c = 0 \<or> (\<exists>k\<le>31. c = 2 ^ k)))"
proof (erule RingBuffer_Init_loop.raw_induct [rotated])
  fix f :: "32 word \<Rightarrow> 32 word \<Rightarrow> 32 word option" and c n y :: "32 word"
  assume IH: "\<And>c n y. f c n = Some y
     \<Longrightarrow> \<not> (2 ^ 31 < unat n \<and> (c = 0 \<or> (\<exists>k\<le>31. c = 2 ^ k)))"
    and body: "(if c < n then f (push_bit 1 c) n else Some c) = Some y"
  show "\<not> (2 ^ 31 < unat n \<and> (c = 0 \<or> (\<exists>k\<le>31. c = 2 ^ k)))"
  proof
    assume a: "2 ^ 31 < unat n \<and> (c = 0 \<or> (\<exists>k\<le>31. c = 2 ^ k))"
    then have "unat c \<le> 2 ^ 31"
      using pow2_le_31 by (auto simp: unat_pow2_32)
    with a have "c < n" by (simp add: word_less_nat_alt)
    with body have "f (push_bit 1 c) n = Some y" by simp
    then have "\<not> (2 ^ 31 < unat n \<and> (push_bit 1 c = 0 \<or> (\<exists>k\<le>31. push_bit 1 c = 2 ^ k)))"
      by (rule IH)
    moreover have "push_bit 1 c = 0 \<or> (\<exists>k\<le>31. push_bit 1 c = 2 ^ k)"
    proof -
      from a consider "c = 0" | k where "k \<le> 31" "c = 2 ^ k" by blast
      then show ?thesis
      proof cases
        case 1 then show ?thesis by simp
      next
        case 2
        show ?thesis
        proof (cases "k = 31")
          case True
          with 2 have "push_bit 1 c = 0" by (simp add: push_bit_eq_mult)
          then show ?thesis by simp
        next
          case False
          from False 2 have "Suc k \<le> 31" by simp
          moreover from 2 have "push_bit 1 c = 2 ^ Suc k"
            by (simp only: push_bit_1_pow2)
          ultimately show ?thesis by blast
        qed
      qed
    qed
    ultimately show False using a by blast
  qed
qed

lemma Init_loop_diverges:
  assumes "2 ^ 31 < unat n"
  shows "RingBuffer_Init_loop 1 n = None"
proof (cases "RingBuffer_Init_loop 1 n")
  case None then show ?thesis .
next
  case (Some y)
  have "\<exists>k\<le>31. (1 :: 32 word) = 2 ^ k"
    by (rule exI [of _ 0]) simp
  with Init_loop_stuck [OF Some] assms have False by blast
  then show ?thesis ..
qed

section \<open>RingBuffer_Init\<close>

lemma RingBuffer_Init_True:
  assumes "RingBuffer_Init ok rb n os = Some (True, rb', os')"
  shows "\<exists>c. RingBuffer_Init_loop 1 n = Some c
          \<and> rb' = rb\<lparr>rb_buffer := Some (replicate (unat c) zero_event), rb_capacity := c,
                      rb_mask := c - 1, rb_head := 0, rb_tail := 0\<rparr>
          \<and> os' = os\<lparr>heap_allocs := heap_allocs os + 1\<rparr> \<and> ok"
  using assms
  by (auto simp: RingBuffer_Init_def HeapAlloc_def Let_def split: option.splits if_splits)

lemma RingBuffer_Init_returns:
  assumes "unat n \<le> 2 ^ 31"
  shows "\<exists>k\<le>31. RingBuffer_Init True rb n os =
            Some (True,
                  rb\<lparr>rb_buffer := Some (replicate (2 ^ k) zero_event), rb_capacity := 2 ^ k,
                      rb_mask := 2 ^ k - 1, rb_head := 0, rb_tail := 0\<rparr>,
                  os\<lparr>heap_allocs := heap_allocs os + 1\<rparr>)
          \<and> unat n \<le> 2 ^ k \<and> (\<forall>j<k. 2 ^ j < unat n)"
proof -
  from Init_loop_returns [OF assms] obtain k where k: "k \<le> 31"
    and loop: "RingBuffer_Init_loop 1 n = Some (2 ^ k)"
    and ge: "unat n \<le> 2 ^ k" and least: "\<forall>j<k. 2 ^ j < unat n"
    by blast
  have "RingBuffer_Init True rb n os =
            Some (True,
                  rb\<lparr>rb_buffer := Some (replicate (2 ^ k) zero_event), rb_capacity := 2 ^ k,
                      rb_mask := 2 ^ k - 1, rb_head := 0, rb_tail := 0\<rparr>,
                  os\<lparr>heap_allocs := heap_allocs os + 1\<rparr>)"
    by (simp add: RingBuffer_Init_def loop HeapAlloc_def unat_pow2_32 [OF k])
  with k ge least show ?thesis by blast
qed

lemma RingBuffer_Init_wf:
  assumes "RingBuffer_Init ok rb n os = Some (True, rb', os')"
  shows "rb_wf rb'" and "rb_contents rb' = []"
proof -
  from RingBuffer_Init_True [OF assms] obtain c where
    loop: "RingBuffer_Init_loop 1 n = Some c"
    and rb': "rb' = rb\<lparr>rb_buffer := Some (replicate (unat c) zero_event), rb_capacity := c,
                      rb_mask := c - 1, rb_head := 0, rb_tail := 0\<rparr>"
    by blast
  have "unat n \<le> 2 ^ 31"
  proof (rule ccontr)
    assume "\<not> unat n \<le> 2 ^ 31"
    then have "RingBuffer_Init_loop 1 n = None" by (intro Init_loop_diverges) simp
    with loop show False by simp
  qed
  from Init_loop_returns [OF this] loop obtain k where k: "k \<le> 31" and c: "c = 2 ^ k"
    by auto
  show "rb_wf rb'"
    unfolding rb_wf_def using k by (intro exI [of _ k]) (simp add: rb' c unat_pow2_32)
  show "rb_contents rb' = []"
    by (simp add: rb_contents_def rb' ring_dist_def ring_slots_0 c unat_pow2_32 [OF k])
qed

section \<open>Sequences of calls on a ring buffer in use\<close>

lemma sint_small:
  fixes x :: "32 word"
  assumes "unat x < 2 ^ k" "k \<le> 31"
  shows "sint x = int (unat x)"
proof -
  from assms pow2_le_31 [of k] have "unat x < 2 ^ 31" by simp
  then have "int (unat x) < int (2 ^ 31)" by (simp only: of_nat_less_iff)
  then have "uint x < 2 ^ 31" by simp
  moreover have "- (2 ^ 31) \<le> (0::int)" by simp
  then have "- (2 ^ 31) \<le> uint x" by (rule order_trans) simp
  ultimately have "signed_take_bit 31 (uint x) = uint x"
    by (intro signed_take_bit_int_eq_self)
  then show ?thesis by (simp add: sint_uint)
qed

lemma rb_wf_index_range:
  assumes "rb_wf rb"
  shows "0 \<le> sint (rb_head rb) \<and> sint (rb_head rb) < uint (rb_capacity rb)
       \<and> 0 \<le> sint (rb_tail rb) \<and> sint (rb_tail rb) < uint (rb_capacity rb)
       \<and> rb_head rb AND rb_mask rb = rb_head rb \<and> rb_tail rb AND rb_mask rb = rb_tail rb"
proof -
  from assms obtain k where k: "k \<le> 31" and cap: "rb_capacity rb = 2 ^ k"
    and mask: "rb_mask rb = 2 ^ k - 1" and h: "unat (rb_head rb) < 2 ^ k"
    and t: "unat (rb_tail rb) < 2 ^ k"
    by (auto simp: rb_wf_def)
  have ucap: "uint (rb_capacity rb) = 2 ^ k"
    by (simp add: cap uint_nat unat_pow2_32 [OF k])
  have "unat (rb_head rb AND rb_mask rb) = unat (rb_head rb)"
    using h by (simp add: mask unat_and_mask32)
  moreover have "unat (rb_tail rb AND rb_mask rb) = unat (rb_tail rb)"
    using t by (simp add: mask unat_and_mask32)
  ultimately have masked: "rb_head rb AND rb_mask rb = rb_head rb"
    "rb_tail rb AND rb_mask rb = rb_tail rb"
    by (simp_all add: word_unat_eq_iff)
  have hs: "sint (rb_head rb) = int (unat (rb_head rb))" by (rule sint_small [OF h k])
  have ts: "sint (rb_tail rb) = int (unat (rb_tail rb))" by (rule sint_small [OF t k])
  have "int (unat (rb_head rb)) < 2 ^ k" "int (unat (rb_tail rb)) < 2 ^ k"
    using h t by (simp_all only: of_nat_less_numeral_power_cancel_iff)
  then show ?thesis
    unfolding hs ts ucap using masked by (simp only: of_nat_0_le_iff simp_thms)
qed

lemma run_calls_wf:
  "rb_wf rb \<Longrightarrow> \<exists>rb'. run_calls rb cs = Inr rb' \<and> rb_wf rb' \<and> rb_capacity rb' = rb_capacity rb"
proof (induction cs arbitrary: rb)
  case Nil
  then show ?case by simp
next
  case (Cons c cs)
  show ?case
  proof (cases c)
    case (Write e)
    from RingBuffer_Write_wf [OF Cons.prems, of e] obtain rb1 where
      w: "RingBuffer_Write rb e = Inr rb1" and wf1: "rb_wf rb1"
      and cap1: "rb_capacity rb1 = rb_capacity rb"
      by blast
    from Cons.IH [OF wf1] show ?thesis by (auto simp: Write w cap1)
  next
    case (ReadBatch m)
    from RingBuffer_ReadBatch_wf [OF Cons.prems, of m] obtain c' out rb1 where
      r: "RingBuffer_ReadBatch rb m = Inr (c', out, rb1)" and wf1: "rb_wf rb1"
      and cap1: "rb_capacity rb1 = rb_capacity rb"
      by blast
    from Cons.IH [OF wf1] show ?thesis by (auto simp: ReadBatch r cap1)
  qed
qed

lemma drop_last_n_append:
  "drop (length (drop (length xs - n) xs @ ys) - n) (drop (length xs - n) xs @ ys)
     = drop (length (xs @ ys) - n) (xs @ ys)"
proof (cases "length xs \<le> n")
  case True
  then show ?thesis by simp
next
  case False
  define a where "a = length xs - n"
  from False have len: "length xs = a + n" by (simp add: a_def)
  have "drop (length (drop a xs @ ys) - n) (drop a xs @ ys) = drop (length ys) (drop a xs @ ys)"
    by (simp add: len)
  also have "\<dots> = drop (length ys) (drop a (xs @ ys))"
    by (simp add: len)
  also have "\<dots> = drop (length (xs @ ys) - n) (xs @ ys)"
    by (simp add: len add.commute)
  finally show ?thesis by (simp only: a_def)
qed

lemma rb_contents_length:
  assumes "rb_wf rb"
  shows "length (rb_contents rb) < unat (rb_capacity rb)"
proof -
  from assms obtain k xs where k: "k \<le> 31" and cap: "rb_capacity rb = 2 ^ k"
    and buf: "rb_buffer rb = Some xs" and len: "length xs = 2 ^ k"
    by (auto simp: rb_wf_def split: option.splits)
  show ?thesis
    by (simp add: rb_contents_def buf len length_ring_slots ring_dist_less cap unat_pow2_32 [OF k])
qed

lemma unread_wf:
  assumes "rb_wf rb"
  shows "unread rb = rb_contents rb"
proof -
  from RingBuffer_ReadBatch_wf [OF assms, of "rb_capacity rb"] obtain c rb' where
    "RingBuffer_ReadBatch rb (rb_capacity rb)
       = Inr (c, take (unat (rb_capacity rb)) (rb_contents rb), rb')"
    by blast
  with rb_contents_length [OF assms] show ?thesis by (simp add: unread_def)
qed

lemma RingBuffer_Write_keeps_last:
  assumes wf: "rb_wf rb" and cap: "rb_capacity rb \<noteq> 1" and w: "RingBuffer_Write rb e = Inr rb'"
  shows "rb_contents rb' =
     drop (length (rb_contents rb @ [e]) - (unat (rb_capacity rb) - 1)) (rb_contents rb @ [e])"
proof (cases "(rb_head rb + 1) AND rb_mask rb = rb_tail rb")
  case True
  from RingBuffer_Write_contents(2) [OF wf w True]
  have len: "Suc (length (rb_contents rb)) = unat (rb_capacity rb)" .
  have "unat (rb_capacity rb) \<noteq> 1"
    using cap by (simp add: word_unat_eq_iff)
  with len have ne: "rb_contents rb \<noteq> []" by auto
  have "length (rb_contents rb @ [e]) - (unat (rb_capacity rb) - 1) = 1"
    using len ne by (simp flip: len)
  moreover have "drop 1 (rb_contents rb @ [e]) = tl (rb_contents rb) @ [e]"
    using ne by (cases "rb_contents rb") simp_all
  ultimately show ?thesis
    using RingBuffer_Write_contents(1) [OF wf w] True cap by simp
next
  case False
  from RingBuffer_Write_contents(3) [OF wf w False]
  have "length (rb_contents rb @ [e]) - (unat (rb_capacity rb) - 1) = 0" by simp
  then show ?thesis
    using RingBuffer_Write_contents(1) [OF wf w] False by simp
qed

lemma write_all_keeps_last:
  "rb_wf rb \<Longrightarrow> rb_capacity rb \<noteq> 1
    \<Longrightarrow> \<exists>rb1. write_all rb es = Inr rb1 \<and> rb_wf rb1 \<and> rb_capacity rb1 = rb_capacity rb
          \<and> rb_contents rb1 =
              drop (length (rb_contents rb @ es) - (unat (rb_capacity rb) - 1)) (rb_contents rb @ es)"
proof (induction es arbitrary: rb)
  case Nil
  from rb_contents_length [OF Nil(1)] show ?case using Nil by simp
next
  case (Cons e es)
  from RingBuffer_Write_wf [OF Cons.prems(1), of e] obtain rb' where
    w: "RingBuffer_Write rb e = Inr rb'" and wf': "rb_wf rb'"
    and cap': "rb_capacity rb' = rb_capacity rb"
    by blast
  let ?n = "unat (rb_capacity rb) - 1"
  have c': "rb_contents rb' = drop (length (rb_contents rb @ [e]) - ?n) (rb_contents rb @ [e])"
    by (rule RingBuffer_Write_keeps_last [OF Cons.prems w])
  from Cons.IH [OF wf'] Cons.prems(2) cap' obtain rb1 where
    all: "write_all rb' es = Inr rb1" and wf1: "rb_wf rb1"
    and cap1: "rb_capacity rb1 = rb_capacity rb"
    and c1: "rb_contents rb1 = drop (length (rb_contents rb' @ es) - ?n) (rb_contents rb' @ es)"
    by auto
  have "rb_contents rb1 = drop (length ((rb_contents rb @ [e]) @ es) - ?n) ((rb_contents rb @ [e]) @ es)"
    unfolding c1 c' by (rule drop_last_n_append)
  then have "rb_contents rb1 = drop (length (rb_contents rb @ e # es) - ?n) (rb_contents rb @ e # es)"
    by simp
  with all wf1 cap1 show ?case by (simp add: w)
qed

section \<open>Claims about the ring buffer and the hook DLL\<close>

text \<open>
  C6. On an empty ring buffer (read index equal to write index) \<open>RingBuffer_ReadBatch\<close>
  returns the count 0, copies nothing, and leaves the ring buffer as it was: neither
  index is written (the read index is stored only when \<open>count > 0\<close>). This holds for
  every state of the structure and every \<open>maxEvents\<close>.
\<close>

theorem ReadBatch_empty_no_mutation:
  assumes "rb_tail rb = rb_head rb"
  shows "RingBuffer_ReadBatch rb maxEvents = Inr (0, [], rb)"
proof -
  from assms have "ReadBatch_loop rb maxEvents (rb_head rb) (rb_tail rb) 0 [] = Inr (rb_tail rb, 0, [])"
    by (subst ReadBatch_loop.simps) simp
  then show ?thesis by (simp add: RingBuffer_ReadBatch_def)
qed

theorem ReadBatch_empty_no_mutation_witness:
  "rb_tail \<lparr>rb_buffer = Some [zero_event, zero_event, zero_event, zero_event],
            rb_capacity = 4, rb_mask = 3, rb_head = 2, rb_tail = 2\<rparr>
     = rb_head \<lparr>rb_buffer = Some [zero_event, zero_event, zero_event, zero_event],
            rb_capacity = 4, rb_mask = 3, rb_head = 2, rb_tail = 2\<rparr>
   \<and> RingBuffer_ReadBatch
        \<lparr>rb_buffer = Some [zero_event, zero_event, zero_event, zero_event],
            rb_capacity = 4, rb_mask = 3, rb_head = 2, rb_tail = 2\<rparr> 8
     = Inr (0, [], \<lparr>rb_buffer = Some [zero_event, zero_event, zero_event, zero_event],
            rb_capacity = 4, rb_mask = 3, rb_head = 2, rb_tail = 2\<rparr>)"
  using ReadBatch_empty_no_mutation
    [of "\<lparr>rb_buffer = Some [zero_event, zero_event, zero_event, zero_event],
            rb_capacity = 4, rb_mask = 3, rb_head = 2, rb_tail = 2\<rparr>" 8]
  by simp

text \<open>
  C7. \<open>HookDll_Initialize\<close> on an initialized DLL returns TRUE at once and leaves the
  whole state as it was: the ring buffer with its block and indices, the hook handles,
  and the OS (no allocation, no hook registration). In particular a second call right
  after a successful one, whatever its argument and whatever the OS would answer,
  changes nothing and returns TRUE.
\<close>

theorem HookDll_Initialize_idempotent:
  shows "(g_initialized s \<longrightarrow> HookDll_Initialize env n s = Some (True, s))
       \<and> (HookDll_Initialize env n s = Some (True, s1)
            \<longrightarrow> HookDll_Initialize env' n' s1 = Some (True, s1))"
proof (intro conjI impI)
  show "HookDll_Initialize env n s = Some (True, s)" if "g_initialized s"
    using that by (simp add: HookDll_Initialize_def)
  show "HookDll_Initialize env' n' s1 = Some (True, s1)"
    if "HookDll_Initialize env n s = Some (True, s1)"
  proof -
    from that have "g_initialized s1"
      by (auto simp: HookDll_Initialize_def Let_def
          split: if_splits option.splits prod.splits)
    then show ?thesis by (simp add: HookDll_Initialize_def)
  qed
qed

theorem HookDll_Initialize_idempotent_witness:
  "HookDll_Initialize \<lparr>alloc_ok = True, keyboard_reply = Some 1, mouse_reply = Some 2\<rparr> 2
      \<lparr>g_keyboardHook = None, g_mouseHook = None,
       g_ringBuffer = \<lparr>rb_buffer = None, rb_capacity = 0, rb_mask = 0, rb_head = 0, rb_tail = 0\<rparr>,
       g_initialized = False,
       osys = \<lparr>heap_allocs = 0, heap_frees = 0, installed = []\<rparr>\<rparr>
    = Some (True,
      \<lparr>g_keyboardHook = Some 1, g_mouseHook = Some 2,
       g_ringBuffer = \<lparr>rb_buffer = Some [zero_event, zero_event], rb_capacity = 2, rb_mask = 1,
                       rb_head = 0, rb_tail = 0\<rparr>,
       g_initialized = True,
       osys = \<lparr>heap_allocs = 1, heap_frees = 0, installed = [2, 1]\<rparr>\<rparr>)
   \<and> HookDll_Initialize \<lparr>alloc_ok = False, keyboard_reply = None, mouse_reply = Some 3\<rparr> 9
      \<lparr>g_keyboardHook = Some 1, g_mouseHook = Some 2,
       g_ringBuffer = \<lparr>rb_buffer = Some [zero_event, zero_event], rb_capacity = 2, rb_mask = 1,
                       rb_head = 0, rb_tail = 0\<rparr>,
       g_initialized = True,
       osys = \<lparr>heap_allocs = 1, heap_frees = 0, installed = [2, 1]\<rparr>\<rparr>
    = Some (True,
      \<lparr>g_keyboardHook = Some 1, g_mouseHook = Some 2,
       g_ringBuffer = \<lparr>rb_buffer = Some [zero_event, zero_event], rb_capacity = 2, rb_mask = 1,
                       rb_head = 0, rb_tail = 0\<rparr>,
       g_initialized = True,
       osys = \<lparr>heap_allocs = 1, heap_frees = 0, installed = [2, 1]\<rparr>\<rparr>)"
proof -
  have first: "HookDll_Initialize \<lparr>alloc_ok = True, keyboard_reply = Some 1, mouse_reply = Some 2\<rparr> 2
      \<lparr>g_keyboardHook = None, g_mouseHook = None,
       g_ringBuffer = \<lparr>rb_buffer = None, rb_capacity = 0, rb_mask = 0, rb_head = 0, rb_tail = 0\<rparr>,
       g_initialized = False,
       osys = \<lparr>heap_allocs = 0, heap_frees = 0, installed = []\<rparr>\<rparr>
    = Some (True,
      \<lparr>g_keyboardHook = Some 1, g_mouseHook = Some 2,
       g_ringBuffer = \<lparr>rb_buffer = Some [zero_event, zero_event], rb_capacity = 2, rb_mask = 1,
                       rb_head = 0, rb_tail = 0\<rparr>,
       g_initialized = True,
       osys = \<lparr>heap_allocs = 1, heap_frees = 0, installed = [2, 1]\<rparr>\<rparr>)"
    by code_simp
  from first HookDll_Initialize_idempotent [THEN conjunct2, rule_format, OF first,
      of "\<lparr>alloc_ok = False, keyboard_reply = None, mouse_reply = Some 3\<rparr>" 9]
  show ?thesis by simp
qed

text \<open>
  C8. \<open>HookDll_Shutdown\<close> on a DLL that is not initialized changes nothing; a second
  \<open>HookDll_Shutdown\<close> right after a first changes nothing; and the two calls together
  call \<open>HeapFree\<close> at most once.
\<close>

theorem HookDll_Shutdown_idempotent:
  shows "(\<not> g_initialized s \<longrightarrow> HookDll_Shutdown s = s)
       \<and> HookDll_Shutdown (HookDll_Shutdown s) = HookDll_Shutdown s
       \<and> heap_frees (osys (HookDll_Shutdown (HookDll_Shutdown s))) \<le> heap_frees (osys s) + 1"
proof -
  have off: "\<not> g_initialized (HookDll_Shutdown s)"
    by (simp add: HookDll_Shutdown_def Let_def split: option.splits prod.splits)
  have noop: "HookDll_Shutdown t = t" if "\<not> g_initialized t" for t
    using that by (simp add: HookDll_Shutdown_def)
  have frees: "heap_frees (osys (HookDll_Shutdown s)) \<le> heap_frees (osys s) + 1"
    by (simp add: HookDll_Shutdown_def Let_def RingBuffer_Destroy_def HeapFree_def
        UnhookWindowsHookEx_def split: option.splits prod.splits)
  show ?thesis using off noop frees by simp
qed

theorem HookDll_Shutdown_idempotent_witness:
  "HookDll_Shutdown
      \<lparr>g_keyboardHook = Some 1, g_mouseHook = Some 2,
       g_ringBuffer = \<lparr>rb_buffer = Some [zero_event, zero_event], rb_capacity = 2, rb_mask = 1,
                       rb_head = 0, rb_tail = 0\<rparr>,
       g_initialized = True,
       osys = \<lparr>heap_allocs = 1, heap_frees = 0, installed = [2, 1]\<rparr>\<rparr>
    = \<lparr>g_keyboardHook = None, g_mouseHook = None,
       g_ringBuffer = \<lparr>rb_buffer = None, rb_capacity = 2, rb_mask = 1, rb_head = 0, rb_tail = 0\<rparr>,
       g_initialized = False,
       osys = \<lparr>heap_allocs = 1, heap_frees = 1, installed = []\<rparr>\<rparr>
   \<and> HookDll_Shutdown
      \<lparr>g_keyboardHook = None, g_mouseHook = None,
       g_ringBuffer = \<lparr>rb_buffer = None, rb_capacity = 2, rb_mask = 1, rb_head = 0, rb_tail = 0\<rparr>,
       g_initialized = False,
       osys = \<lparr>heap_allocs = 1, heap_frees = 1, installed = []\<rparr>\<rparr>
    = \<lparr>g_keyboardHook = None, g_mouseHook = None,
       g_ringBuffer = \<lparr>rb_buffer = None, rb_capacity = 2, rb_mask = 1, rb_head = 0, rb_tail = 0\<rparr>,
       g_initialized = False,
       osys = \<lparr>heap_allocs = 1, heap_frees = 1, installed = []\<rparr>\<rparr>"
proof -
  have first: "HookDll_Shutdown
      \<lparr>g_keyboardHook = Some 1, g_mouseHook = Some 2,
       g_ringBuffer = \<lparr>rb_buffer = Some [zero_event, zero_event], rb_capacity = 2, rb_mask = 1,
                       rb_head = 0, rb_tail = 0\<rparr>,
       g_initialized = True,
       osys = \<lparr>heap_allocs = 1, heap_frees = 0, installed = [2, 1]\<rparr>\<rparr>
    = \<lparr>g_keyboardHook = None, g_mouseHook = None,
       g_ringBuffer = \<lparr>rb_buffer = None, rb_capacity = 2, rb_mask = 1, rb_head = 0, rb_tail = 0\<rparr>,
       g_initialized = False,
       osys = \<lparr>heap_allocs = 1, heap_frees = 1, installed = []\<rparr>\<rparr>"
    by (simp add: HookDll_Shutdown_def Let_def UnhookWindowsHookEx_def RingBuffer_Destroy_def
        HeapFree_def)
  from first HookDll_Shutdown_idempotent
    [of "\<lparr>g_keyboardHook = None, g_mouseHook = None,
       g_ringBuffer = \<lparr>rb_buffer = None, rb_capacity = 2, rb_mask = 1, rb_head = 0, rb_tail = 0\<rparr>,
       g_initialized = False,
       osys = \<lparr>heap_allocs = 1, heap_frees = 1, installed = []\<rparr>\<rparr>"]
  show ?thesis by simp
qed

text \<open>
  C5. \<open>HookDll_Initialize\<close> on a DLL that is not initialized, when the ring buffer was
  allocated and at least one of the two \<open>SetWindowsHookExW\<close> calls returned NULL:
  the call returns FALSE, the DLL is still not initialized, both handles are NULL, the
  block of the ring buffer was freed (one \<open>HeapFree\<close> for the one \<open>HeapAlloc\<close>) and
  its pointer is NULL, and the hooks installed in the OS are those installed before the
  call: a registration that succeeded was removed again.
\<close>

theorem HookDll_Initialize_rollback:
  assumes uninit: "\<not> g_initialized s"
    and alloc: "RingBuffer_Init (alloc_ok env) (g_ringBuffer s) n (osys s) = Some (True, rb, os1)"
    and fail: "keyboard_reply env = None \<or> mouse_reply env = None"
  shows "\<exists>s'. HookDll_Initialize env n s = Some (False, s')
           \<and> \<not> g_initialized s'
           \<and> g_keyboardHook s' = None \<and> g_mouseHook s' = None
           \<and> rb_buffer (g_ringBuffer s') = None
           \<and> installed (osys s') = installed (osys s)
           \<and> heap_allocs (osys s') = heap_allocs (osys s) + 1
           \<and> heap_frees (osys s') = heap_frees (osys s) + 1"
proof -
  from RingBuffer_Init_True [OF alloc] have buf: "rb_buffer rb \<noteq> None"
    and os1: "os1 = (osys s)\<lparr>heap_allocs := heap_allocs (osys s) + 1\<rparr>"
    by auto
  show ?thesis
    using uninit fail buf
    by (cases "keyboard_reply env"; cases "mouse_reply env")
      (auto simp: HookDll_Initialize_def alloc os1 SetWindowsHookExW_def UnhookWindowsHookEx_def
        RingBuffer_Destroy_def HeapFree_def Let_def)
qed

theorem HookDll_Initialize_rollback_witness:
  "HookDll_Initialize \<lparr>alloc_ok = True, keyboard_reply = Some 1, mouse_reply = None\<rparr> 2
      \<lparr>g_keyboardHook = None, g_mouseHook = None,
       g_ringBuffer = \<lparr>rb_buffer = None, rb_capacity = 0, rb_mask = 0, rb_head = 0, rb_tail = 0\<rparr>,
       g_initialized = False,
       osys = \<lparr>heap_allocs = 0, heap_frees = 0, installed = [7]\<rparr>\<rparr>
    = Some (False,
      \<lparr>g_keyboardHook = None, g_mouseHook = None,
       g_ringBuffer = \<lparr>rb_buffer = None, rb_capacity = 2, rb_mask = 1, rb_head = 0, rb_tail = 0\<rparr>,
       g_initialized = False,
       osys = \<lparr>heap_allocs = 1, heap_frees = 1, installed = [7]\<rparr>\<rparr>)"
proof -
  have alloc: "RingBuffer_Init True
       \<lparr>rb_buffer = None, rb_capacity = 0, rb_mask = 0, rb_head = 0, rb_tail = 0\<rparr> 2
       \<lparr>heap_allocs = 0, heap_frees = 0, installed = [7]\<rparr>
     = Some (True,
         \<lparr>rb_buffer = Some [zero_event, zero_event], rb_capacity = 2, rb_mask = 1,
           rb_head = 0, rb_tail = 0\<rparr>,
         \<lparr>heap_allocs = 1, heap_frees = 0, installed = [7]\<rparr>)"
    by code_simp
  have "\<exists>s'. HookDll_Initialize \<lparr>alloc_ok = True, keyboard_reply = Some 1, mouse_reply = None\<rparr> 2
      \<lparr>g_keyboardHook = None, g_mouseHook = None,
       g_ringBuffer = \<lparr>rb_buffer = None, rb_capacity = 0, rb_mask = 0, rb_head = 0, rb_tail = 0\<rparr>,
       g_initialized = False,
       osys = \<lparr>heap_allocs = 0, heap_frees = 0, installed = [7]\<rparr>\<rparr> = Some (False, s')"
    using HookDll_Initialize_rollback
      [of "\<lparr>g_keyboardHook = None, g_mouseHook = None,
       g_ringBuffer = \<lparr>rb_buffer = None, rb_capacity = 0, rb_mask = 0, rb_head = 0, rb_tail = 0\<rparr>,
       g_initialized = False,
       osys = \<lparr>heap_allocs = 0, heap_frees = 0, installed = [7]\<rparr>\<rparr>"
          "\<lparr>alloc_ok = True, keyboard_reply = Some 1, mouse_reply = None\<rparr>" 2] alloc
    by auto
  then show ?thesis
    by (auto simp: HookDll_Initialize_def alloc SetWindowsHookExW_def UnhookWindowsHookEx_def
        RingBuffer_Destroy_def HeapFree_def Let_def)
qed

text \<open>
  C10. The rounding loop of \<open>RingBuffer_Init\<close>, started at capacity 1, terminates for
  every requested capacity from 1 to \<open>2\<^sup>3\<^sup>1\<close>, with a capacity that is at least the
  request and is not 0; and the bound is needed: for every request above \<open>2\<^sup>3\<^sup>1\<close> the
  loop never ends (the capacity is shifted to 0 and stays below the request).
\<close>

theorem Init_loop_terminates_iff:
  "(1 \<le> unat n \<and> unat n \<le> 2 ^ 31
      \<longrightarrow> (\<exists>c. RingBuffer_Init_loop 1 n = Some c \<and> n \<le> c \<and> c \<noteq> 0))
   \<and> (2 ^ 31 < unat n \<longrightarrow> RingBuffer_Init_loop 1 n = None)"
proof (intro conjI impI)
  assume "1 \<le> unat n \<and> unat n \<le> 2 ^ 31"
  then have n: "unat n \<le> 2 ^ 31" by simp
  from Init_loop_returns [OF n] obtain m where m: "m \<le> 31"
    and loop: "RingBuffer_Init_loop 1 n = Some (2 ^ m)" and ge: "unat n \<le> 2 ^ m"
    by blast
  have "n \<le> 2 ^ m" using ge by (simp add: word_le_nat_alt unat_pow2_32 [OF m])
  moreover have "(2 ^ m :: 32 word) \<noteq> 0"
    using unat_pow2_32 [OF m] by (auto simp: word_unat_eq_iff)
  ultimately show "\<exists>c. RingBuffer_Init_loop 1 n = Some c \<and> n \<le> c \<and> c \<noteq> 0"
    using loop by blast
next
  assume "2 ^ 31 < unat n"
  then show "RingBuffer_Init_loop 1 n = None" by (rule Init_loop_diverges)
qed

theorem Init_loop_terminates_iff_witness:
  "1 \<le> unat (10 :: 32 word) \<and> unat (10 :: 32 word) \<le> 2 ^ 31
   \<and> RingBuffer_Init_loop 1 10 = Some 16
   \<and> 2 ^ 31 < unat (0x80000001 :: 32 word)
   \<and> RingBuffer_Init_loop 1 0x80000001 = None"
proof -
  have a: "RingBuffer_Init_loop 1 0x80000001 = None"
    using Init_loop_terminates_iff [of "0x80000001"] by simp
  have b: "\<exists>c. RingBuffer_Init_loop 1 10 = Some c \<and> 10 \<le> c \<and> c \<noteq> 0"
    using Init_loop_terminates_iff [of 10] by simp
  have c: "RingBuffer_Init_loop 1 10 = Some 16"
    by (simp add: RingBuffer_Init_loop.simps)
  from a b c show ?thesis by simp
qed

text \<open>
  C9. After \<open>RingBuffer_Init\<close> has succeeded, every sequence of \<open>RingBuffer_Write\<close> and
  \<open>RingBuffer_ReadBatch\<close> calls runs without a memory fault, leaves the capacity as it
  was, and leaves both indices, read as the signed LONGs they are, in the range from 0
  up to but excluding the capacity; each index is its own value masked.
\<close>

theorem indices_stay_below_capacity:
  assumes "RingBuffer_Init ok rb0 n os = Some (True, rb, os')"
  shows "\<exists>rb'. run_calls rb cs = Inr rb' \<and> rb_capacity rb' = rb_capacity rb
           \<and> 0 \<le> sint (rb_head rb') \<and> sint (rb_head rb') < uint (rb_capacity rb')
           \<and> 0 \<le> sint (rb_tail rb') \<and> sint (rb_tail rb') < uint (rb_capacity rb')
           \<and> rb_head rb' AND rb_mask rb' = rb_head rb'
           \<and> rb_tail rb' AND rb_mask rb' = rb_tail rb'"
proof -
  from RingBuffer_Init_wf(1) [OF assms] have "rb_wf rb" .
  from run_calls_wf [OF this, of cs] obtain rb' where
    "run_calls rb cs = Inr rb'" "rb_wf rb'" "rb_capacity rb' = rb_capacity rb"
    by blast
  with rb_wf_index_range [of rb'] show ?thesis by blast
qed

theorem indices_stay_below_capacity_witness:
  "RingBuffer_Init True
       \<lparr>rb_buffer = None, rb_capacity = 0, rb_mask = 0, rb_head = 0, rb_tail = 0\<rparr> 2
       \<lparr>heap_allocs = 0, heap_frees = 0, installed = []\<rparr>
     = Some (True,
         \<lparr>rb_buffer = Some [zero_event, zero_event], rb_capacity = 2, rb_mask = 1,
           rb_head = 0, rb_tail = 0\<rparr>,
         \<lparr>heap_allocs = 1, heap_frees = 0, installed = []\<rparr>)
   \<and> run_calls
         \<lparr>rb_buffer = Some [zero_event, zero_event], rb_capacity = 2, rb_mask = 1,
           rb_head = 0, rb_tail = 0\<rparr>
         [Write (keyboard_event 1 65 30 0 256), Write (keyboard_event 2 65 30 128 257),
          ReadBatch 1, Write (keyboard_event 3 66 48 0 256)]
     = Inr \<lparr>rb_buffer = Some [keyboard_event 3 66 48 0 256, keyboard_event 2 65 30 128 257],
            rb_capacity = 2, rb_mask = 1, rb_head = 1, rb_tail = 0\<rparr>
   \<and> sint (1 :: 32 word) < uint (2 :: 32 word)"
proof -
  have init: "RingBuffer_Init True
       \<lparr>rb_buffer = None, rb_capacity = 0, rb_mask = 0, rb_head = 0, rb_tail = 0\<rparr> 2
       \<lparr>heap_allocs = 0, heap_frees = 0, installed = []\<rparr>
     = Some (True,
         \<lparr>rb_buffer = Some [zero_event, zero_event], rb_capacity = 2, rb_mask = 1,
           rb_head = 0, rb_tail = 0\<rparr>,
         \<lparr>heap_allocs = 1, heap_frees = 0, installed = []\<rparr>)"
    by code_simp
  have run: "run_calls
         \<lparr>rb_buffer = Some [zero_event, zero_event], rb_capacity = 2, rb_mask = 1,
           rb_head = 0, rb_tail = 0\<rparr>
         [Write (keyboard_event 1 65 30 0 256), Write (keyboard_event 2 65 30 128 257),
          ReadBatch 1, Write (keyboard_event 3 66 48 0 256)]
     = Inr \<lparr>rb_buffer = Some [keyboard_event 3 66 48 0 256, keyboard_event 2 65 30 128 257],
            rb_capacity = 2, rb_mask = 1, rb_head = 1, rb_tail = 0\<rparr>"
    by code_simp
  from indices_stay_below_capacity [OF init,
      of "[Write (keyboard_event 1 65 30 0 256), Write (keyboard_event 2 65 30 128 257),
          ReadBatch 1, Write (keyboard_event 3 66 48 0 256)]"]
  have "sint (1 :: 32 word) < uint (2 :: 32 word)"
    unfolding run by simp
  with init run show ?thesis by simp
qed

text \<open>
  C4 (amended). For every requested capacity up to \<open>2\<^sup>3\<^sup>1\<close>, if the heap satisfies the
  allocation, \<open>RingBuffer_Init\<close> returns TRUE with a capacity that is the smallest power
  of two that is at least \<open>max(1, requested)\<close>, a zeroed block of that many slots, and
  both indices 0; a request of 0 gives capacity 1.
\<close>

theorem RingBuffer_Init_rounds_up:
  assumes "unat n \<le> 2 ^ 31"
  shows "\<exists>rb' os' k. RingBuffer_Init True rb n os = Some (True, rb', os')
           \<and> unat (rb_capacity rb') = 2 ^ k
           \<and> max 1 (unat n) \<le> 2 ^ k \<and> (\<forall>j. max 1 (unat n) \<le> 2 ^ j \<longrightarrow> k \<le> j)
           \<and> rb_head rb' = 0 \<and> rb_tail rb' = 0
           \<and> rb_buffer rb' = Some (replicate (2 ^ k) zero_event)
           \<and> (n = 0 \<longrightarrow> rb_capacity rb' = 1)"
proof -
  from RingBuffer_Init_returns [OF assms, of rb os] obtain k where k: "k \<le> 31"
    and init: "RingBuffer_Init True rb n os =
            Some (True,
                  rb\<lparr>rb_buffer := Some (replicate (2 ^ k) zero_event), rb_capacity := 2 ^ k,
                      rb_mask := 2 ^ k - 1, rb_head := 0, rb_tail := 0\<rparr>,
                  os\<lparr>heap_allocs := heap_allocs os + 1\<rparr>)"
    and ge: "unat n \<le> 2 ^ k" and least: "\<forall>j<k. 2 ^ j < unat n"
    by blast
  have least': "k \<le> j" if "max 1 (unat n) \<le> 2 ^ j" for j
  proof (rule ccontr)
    assume "\<not> k \<le> j"
    then have "j < k" by simp
    with least have "2 ^ j < unat n" by blast
    with that show False by simp
  qed
  have zero: "(2 ^ k :: 32 word) = 1" if "n = 0"
  proof -
    from that have "max 1 (unat n) \<le> 2 ^ 0" by simp
    then have "k \<le> 0" by (rule least')
    then show ?thesis by simp
  qed
  let ?rb' = "rb\<lparr>rb_buffer := Some (replicate (2 ^ k) zero_event), rb_capacity := 2 ^ k,
                      rb_mask := 2 ^ k - 1, rb_head := 0, rb_tail := 0\<rparr>"
  let ?os' = "os\<lparr>heap_allocs := heap_allocs os + 1\<rparr>"
  have all: "RingBuffer_Init True rb n os = Some (True, ?rb', ?os')
           \<and> unat (rb_capacity ?rb') = 2 ^ k
           \<and> max 1 (unat n) \<le> 2 ^ k \<and> (\<forall>j. max 1 (unat n) \<le> 2 ^ j \<longrightarrow> k \<le> j)
           \<and> rb_head ?rb' = 0 \<and> rb_tail ?rb' = 0
           \<and> rb_buffer ?rb' = Some (replicate (2 ^ k) zero_event)
           \<and> (n = 0 \<longrightarrow> rb_capacity ?rb' = 1)"
    using init ge least' zero by (simp add: unat_pow2_32 [OF k])
  show ?thesis
    by (intro exI [of _ ?rb'] exI [of _ ?os'] exI [of _ k]) (rule all)
qed

theorem RingBuffer_Init_rounds_up_witness:
  "unat (10 :: 32 word) \<le> 2 ^ 31
   \<and> RingBuffer_Init True
       \<lparr>rb_buffer = None, rb_capacity = 0, rb_mask = 0, rb_head = 0, rb_tail = 0\<rparr> 10
       \<lparr>heap_allocs = 0, heap_frees = 0, installed = []\<rparr>
     = Some (True,
         \<lparr>rb_buffer = Some (replicate 16 zero_event), rb_capacity = 16, rb_mask = 15,
           rb_head = 0, rb_tail = 0\<rparr>,
         \<lparr>heap_allocs = 1, heap_frees = 0, installed = []\<rparr>)
   \<and> rb_capacity (fst (snd (the (RingBuffer_Init True
       \<lparr>rb_buffer = None, rb_capacity = 0, rb_mask = 0, rb_head = 0, rb_tail = 0\<rparr> 0
       \<lparr>heap_allocs = 0, heap_frees = 0, installed = []\<rparr>)))) = 1"
proof -
  have ten: "RingBuffer_Init True
       \<lparr>rb_buffer = None, rb_capacity = 0, rb_mask = 0, rb_head = 0, rb_tail = 0\<rparr> 10
       \<lparr>heap_allocs = 0, heap_frees = 0, installed = []\<rparr>
     = Some (True,
         \<lparr>rb_buffer = Some (replicate 16 zero_event), rb_capacity = 16, rb_mask = 15,
           rb_head = 0, rb_tail = 0\<rparr>,
         \<lparr>heap_allocs = 1, heap_frees = 0, installed = []\<rparr>)"
    by code_simp
  have "rb_capacity (fst (snd (the (RingBuffer_Init True
       \<lparr>rb_buffer = None, rb_capacity = 0, rb_mask = 0, rb_head = 0, rb_tail = 0\<rparr> 0
       \<lparr>heap_allocs = 0, heap_frees = 0, installed = []\<rparr>)))) = 1"
    using RingBuffer_Init_rounds_up
      [of 0 "\<lparr>rb_buffer = None, rb_capacity = 0, rb_mask = 0, rb_head = 0, rb_tail = 0\<rparr>"
          "\<lparr>heap_allocs = 0, heap_frees = 0, installed = []\<rparr>"]
    by auto
  with ten show ?thesis by simp
qed

text \<open>
  C4 as stated fails: for the request \<open>2\<^sup>3\<^sup>1 + 1\<close> the call does not return, and for the
  request 0 the call fails (returns FALSE and sets no capacity) when the heap refuses
  the allocation.
\<close>

theorem RingBuffer_Init_every_request_counterexample:
  "RingBuffer_Init True
       \<lparr>rb_buffer = None, rb_capacity = 0, rb_mask = 0, rb_head = 0, rb_tail = 0\<rparr> 0x80000001
       \<lparr>heap_allocs = 0, heap_frees = 0, installed = []\<rparr> = None
   \<and> RingBuffer_Init False
       \<lparr>rb_buffer = None, rb_capacity = 0, rb_mask = 0, rb_head = 0, rb_tail = 0\<rparr> 0
       \<lparr>heap_allocs = 0, heap_frees = 0, installed = []\<rparr>
     = Some (False,
         \<lparr>rb_buffer = None, rb_capacity = 0, rb_mask = 0, rb_head = 0, rb_tail = 0\<rparr>,
         \<lparr>heap_allocs = 0, heap_frees = 0, installed = []\<rparr>)"
proof -
  have "RingBuffer_Init_loop 1 0x80000001 = None"
    by (rule Init_loop_diverges) simp
  then have "RingBuffer_Init True
       \<lparr>rb_buffer = None, rb_capacity = 0, rb_mask = 0, rb_head = 0, rb_tail = 0\<rparr> 0x80000001
       \<lparr>heap_allocs = 0, heap_frees = 0, installed = []\<rparr> = None"
    by (simp add: RingBuffer_Init_def)
  moreover have "RingBuffer_Init False
       \<lparr>rb_buffer = None, rb_capacity = 0, rb_mask = 0, rb_head = 0, rb_tail = 0\<rparr> 0
       \<lparr>heap_allocs = 0, heap_frees = 0, installed = []\<rparr>
     = Some (False,
         \<lparr>rb_buffer = None, rb_capacity = 0, rb_mask = 0, rb_head = 0, rb_tail = 0\<rparr>,
         \<lparr>heap_allocs = 0, heap_frees = 0, installed = []\<rparr>)"
    by code_simp
  ultimately show ?thesis by simp
qed

text \<open>
  C3 (amended). For every ring buffer in use whose capacity is at least 2 and which is
  full (\<open>(head + 1) & mask == tail\<close>), \<open>RingBuffer_Write\<close> returns without a fault (it
  has no error return), moves the read index on by one slot, to a slot other than the
  one it was on, and the events retained afterwards are the events retained before
  (there is at least one) without the oldest, followed by the new event.
\<close>

theorem Write_on_full_drops_oldest:
  assumes wf: "rb_wf rb" and cap: "rb_capacity rb \<noteq> 1"
    and full: "(rb_head rb + 1) AND rb_mask rb = rb_tail rb"
  shows "\<exists>rb'. RingBuffer_Write rb e = Inr rb'
           \<and> rb_tail rb' = (rb_tail rb + 1) AND rb_mask rb
           \<and> rb_tail rb' \<noteq> rb_tail rb
           \<and> unread rb \<noteq> []
           \<and> unread rb' = tl (unread rb) @ [e]"
proof -
  from wf obtain k xs where k: "k \<le> 31" and c: "rb_capacity rb = 2 ^ k"
    and mask: "rb_mask rb = 2 ^ k - 1" and buf: "rb_buffer rb = Some xs"
    and t: "unat (rb_tail rb) < 2 ^ k"
    by (auto simp: rb_wf_def split: option.splits)
  from RingBuffer_Write_wf [OF wf, of e] obtain rb' where
    w: "RingBuffer_Write rb e = Inr rb'" and wf': "rb_wf rb'"
    by blast
  have tail': "rb_tail rb' = (rb_tail rb + 1) AND rb_mask rb"
    using w full by (auto simp: RingBuffer_Write_eq [OF wf buf])
  have k0: "k \<noteq> 0"
  proof
    assume "k = 0"
    with c have "rb_capacity rb = 1" by simp
    with cap show False by simp
  qed
  then have "(2::nat) ^ 1 \<le> 2 ^ k" by (intro power_increasing) simp_all
  then have C2: "(1::nat) < 2 ^ k" by simp
  have moved: "rb_tail rb' \<noteq> rb_tail rb"
  proof
    assume "rb_tail rb' = rb_tail rb"
    then have "unat ((rb_tail rb + 1) AND rb_mask rb) = unat (rb_tail rb)"
      by (simp add: tail')
    then have "(unat (rb_tail rb) + 1) mod 2 ^ k = (unat (rb_tail rb) + 0) mod 2 ^ k"
      using t k by (simp add: mask unat_next_index)
    with C2 have "(1::nat) = 0"
      by (intro mod_shift_inj [of 1 "2 ^ k" 0 "unat (rb_tail rb)"]) simp_all
    then show False by simp
  qed
  from RingBuffer_Write_contents(2) [OF wf w full] C2
  have ne: "rb_contents rb \<noteq> []"
    by (auto simp: c unat_pow2_32 [OF k])
  have "rb_contents rb' = tl (rb_contents rb) @ [e]"
    using RingBuffer_Write_contents(1) [OF wf w] full cap by simp
  with ne tail' moved w show ?thesis
    by (simp add: unread_wf [OF wf] unread_wf [OF wf'])
qed

theorem Write_on_full_drops_oldest_witness:
  "rb_wf \<lparr>rb_buffer = Some [keyboard_event 1 65 30 0 256, zero_event],
          rb_capacity = 2, rb_mask = 1, rb_head = 1, rb_tail = 0\<rparr>
   \<and> rb_capacity \<lparr>rb_buffer = Some [keyboard_event 1 65 30 0 256, zero_event],
          rb_capacity = 2, rb_mask = 1, rb_head = 1, rb_tail = 0\<rparr> \<noteq> 1
   \<and> (rb_head \<lparr>rb_buffer = Some [keyboard_event 1 65 30 0 256, zero_event],
          rb_capacity = 2, rb_mask = 1, rb_head = 1, rb_tail = 0\<rparr> + 1)
        AND rb_mask \<lparr>rb_buffer = Some [keyboard_event 1 65 30 0 256, zero_event],
          rb_capacity = 2, rb_mask = 1, rb_head = 1, rb_tail = 0\<rparr>
      = rb_tail \<lparr>rb_buffer = Some [keyboard_event 1 65 30 0 256, zero_event],
          rb_capacity = 2, rb_mask = 1, rb_head = 1, rb_tail = 0\<rparr>
   \<and> RingBuffer_Write \<lparr>rb_buffer = Some [keyboard_event 1 65 30 0 256, zero_event],
          rb_capacity = 2, rb_mask = 1, rb_head = 1, rb_tail = 0\<rparr>
        (keyboard_event 2 66 30 0 256)
      = Inr \<lparr>rb_buffer = Some [keyboard_event 1 65 30 0 256, keyboard_event 2 66 30 0 256],
          rb_capacity = 2, rb_mask = 1, rb_head = 0, rb_tail = 1\<rparr>
   \<and> unread \<lparr>rb_buffer = Some [keyboard_event 1 65 30 0 256, zero_event],
          rb_capacity = 2, rb_mask = 1, rb_head = 1, rb_tail = 0\<rparr> = [keyboard_event 1 65 30 0 256]
   \<and> unread \<lparr>rb_buffer = Some [keyboard_event 1 65 30 0 256, keyboard_event 2 66 30 0 256],
          rb_capacity = 2, rb_mask = 1, rb_head = 0, rb_tail = 1\<rparr> = [keyboard_event 2 66 30 0 256]"
proof -
  let ?rb = "\<lparr>rb_buffer = Some [keyboard_event 1 65 30 0 256, zero_event],
          rb_capacity = 2, rb_mask = 1, rb_head = 1, rb_tail = 0\<rparr>"
  have wf: "rb_wf ?rb"
    unfolding rb_wf_def by (rule exI [of _ 1]) simp
  have cap: "rb_capacity ?rb \<noteq> 1" by simp
  have full: "(rb_head ?rb + 1) AND rb_mask ?rb = rb_tail ?rb" by simp
  have before: "unread ?rb = [keyboard_event 1 65 30 0 256]"
    by code_simp
  have w: "RingBuffer_Write ?rb (keyboard_event 2 66 30 0 256)
      = Inr \<lparr>rb_buffer = Some [keyboard_event 1 65 30 0 256, keyboard_event 2 66 30 0 256],
          rb_capacity = 2, rb_mask = 1, rb_head = 0, rb_tail = 1\<rparr>"
    by code_simp
  from Write_on_full_drops_oldest [OF wf cap full, of "keyboard_event 2 66 30 0 256"]
  have "unread \<lparr>rb_buffer = Some [keyboard_event 1 65 30 0 256, keyboard_event 2 66 30 0 256],
          rb_capacity = 2, rb_mask = 1, rb_head = 0, rb_tail = 1\<rparr> = [keyboard_event 2 66 30 0 256]"
    unfolding w before by simp
  with wf cap full before w show ?thesis by simp
qed

text \<open>
  C3 as stated fails for capacity 1, the capacity that requests 0 and 1 give: the ring
  buffer is full and empty at once, the write leaves the read index where it was, and the
  new event is not retained.
\<close>

theorem Write_on_full_capacity_one_counterexample:
  "RingBuffer_Init True \<lparr>rb_buffer = None, rb_capacity = 0, rb_mask = 0, rb_head = 0, rb_tail = 0\<rparr> 1
       \<lparr>heap_allocs = 0, heap_frees = 0, installed = []\<rparr>
     = Some (True, \<lparr>rb_buffer = Some [zero_event],
          rb_capacity = 1, rb_mask = 0, rb_head = 0, rb_tail = 0\<rparr>,
         \<lparr>heap_allocs = 1, heap_frees = 0, installed = []\<rparr>)
   \<and> (rb_head \<lparr>rb_buffer = Some [zero_event],
          rb_capacity = 1, rb_mask = 0, rb_head = 0, rb_tail = 0\<rparr> + 1)
        AND rb_mask \<lparr>rb_buffer = Some [zero_event],
          rb_capacity = 1, rb_mask = 0, rb_head = 0, rb_tail = 0\<rparr>
      = rb_tail \<lparr>rb_buffer = Some [zero_event],
          rb_capacity = 1, rb_mask = 0, rb_head = 0, rb_tail = 0\<rparr>
   \<and> RingBuffer_Write \<lparr>rb_buffer = Some [zero_event],
          rb_capacity = 1, rb_mask = 0, rb_head = 0, rb_tail = 0\<rparr>
        (keyboard_event 1 65 30 0 256)
      = Inr \<lparr>rb_buffer = Some [keyboard_event 1 65 30 0 256],
          rb_capacity = 1, rb_mask = 0, rb_head = 0, rb_tail = 0\<rparr>
   \<and> unread \<lparr>rb_buffer = Some [zero_event],
          rb_capacity = 1, rb_mask = 0, rb_head = 0, rb_tail = 0\<rparr> = []
   \<and> unread \<lparr>rb_buffer = Some [keyboard_event 1 65 30 0 256],
          rb_capacity = 1, rb_mask = 0, rb_head = 0, rb_tail = 0\<rparr> = []
   \<and> unread \<lparr>rb_buffer = Some [keyboard_event 1 65 30 0 256],
          rb_capacity = 1, rb_mask = 0, rb_head = 0, rb_tail = 0\<rparr>
      \<noteq> tl (unread \<lparr>rb_buffer = Some [zero_event],
          rb_capacity = 1, rb_mask = 0, rb_head = 0, rb_tail = 0\<rparr>) @ [keyboard_event 1 65 30 0 256]"
proof -
  have init: "RingBuffer_Init True \<lparr>rb_buffer = None, rb_capacity = 0, rb_mask = 0, rb_head = 0, rb_tail = 0\<rparr> 1
       \<lparr>heap_allocs = 0, heap_frees = 0, installed = []\<rparr>
     = Some (True, \<lparr>rb_buffer = Some [zero_event],
          rb_capacity = 1, rb_mask = 0, rb_head = 0, rb_tail = 0\<rparr>,
         \<lparr>heap_allocs = 1, heap_frees = 0, installed = []\<rparr>)"
    by code_simp
  have w: "RingBuffer_Write \<lparr>rb_buffer = Some [zero_event],
          rb_capacity = 1, rb_mask = 0, rb_head = 0, rb_tail = 0\<rparr>
        (keyboard_event 1 65 30 0 256)
      = Inr \<lparr>rb_buffer = Some [keyboard_event 1 65 30 0 256],
          rb_capacity = 1, rb_mask = 0, rb_head = 0, rb_tail = 0\<rparr>"
    by code_simp
  have before: "unread \<lparr>rb_buffer = Some [zero_event],
          rb_capacity = 1, rb_mask = 0, rb_head = 0, rb_tail = 0\<rparr> = []"
    by code_simp
  have after: "unread \<lparr>rb_buffer = Some [keyboard_event 1 65 30 0 256],
          rb_capacity = 1, rb_mask = 0, rb_head = 0, rb_tail = 0\<rparr> = []"
    by code_simp
  show ?thesis
    unfolding before after using init w by simp
qed

text \<open>
  C1 (amended). After a successful \<open>RingBuffer_Init\<close>, for every sequence of \<open>N\<close> events
  with \<open>N\<close> less than the capacity, \<open>N\<close> calls of \<open>RingBuffer_Write\<close> followed by
  \<open>RingBuffer_ReadBatch\<close> asking for \<open>N\<close> return the count \<open>N\<close> and the written events
  in the order they were written.
\<close>

theorem write_then_read_back:
  assumes init: "RingBuffer_Init ok rb0 n os = Some (True, rb, os')"
    and len: "length es < unat (rb_capacity rb)"
  shows "\<exists>rb1 rb2. write_all rb es = Inr rb1
           \<and> RingBuffer_ReadBatch rb1 (of_nat (length es)) = Inr (of_nat (length es), es, rb2)"
proof -
  note wf = RingBuffer_Init_wf(1) [OF init] and empty = RingBuffer_Init_wf(2) [OF init]
  have "\<exists>rb1. write_all rb es = Inr rb1 \<and> rb_wf rb1 \<and> rb_contents rb1 = es"
  proof (cases "rb_capacity rb = 1")
    case True
    with len have "es = []" by simp
    with wf empty show ?thesis by simp
  next
    case False
    from write_all_keeps_last [OF wf False, of es] len show ?thesis
      by (auto simp: empty)
  qed
  then obtain rb1 where w: "write_all rb es = Inr rb1" and wf1: "rb_wf rb1"
    and c1: "rb_contents rb1 = es"
    by blast
  have "unat (rb_capacity rb) < 2 ^ 32"
    using unsigned_less [of "rb_capacity rb"] by simp
  with len have m: "unat (of_nat (length es) :: 32 word) = length es"
    by (simp add: unat_of_nat)
  from RingBuffer_ReadBatch_wf [OF wf1, of "of_nat (length es)"] obtain c rb2 where
    r: "RingBuffer_ReadBatch rb1 (of_nat (length es)) = Inr (c, take (length es) es, rb2)"
    and cnt: "unat c = length es"
    by (auto simp: m c1)
  from cnt have "c = of_nat (length es)"
    by (simp add: word_unat_eq_iff m)
  with w r show ?thesis by simp
qed

theorem write_then_read_back_witness:
  "RingBuffer_Init True \<lparr>rb_buffer = None, rb_capacity = 0, rb_mask = 0, rb_head = 0, rb_tail = 0\<rparr> 4
       \<lparr>heap_allocs = 0, heap_frees = 0, installed = []\<rparr>
     = Some (True, \<lparr>rb_buffer = Some [zero_event, zero_event, zero_event, zero_event],
          rb_capacity = 4, rb_mask = 3, rb_head = 0, rb_tail = 0\<rparr>,
         \<lparr>heap_allocs = 1, heap_frees = 0, installed = []\<rparr>)
   \<and> length [keyboard_event 1 65 30 0 256, keyboard_event 2 66 30 0 256, keyboard_event 3 67 30 0 256]
      < unat (rb_capacity \<lparr>rb_buffer = Some [zero_event, zero_event, zero_event, zero_event],
          rb_capacity = 4, rb_mask = 3, rb_head = 0, rb_tail = 0\<rparr>)
   \<and> write_all \<lparr>rb_buffer = Some [zero_event, zero_event, zero_event, zero_event],
          rb_capacity = 4, rb_mask = 3, rb_head = 0, rb_tail = 0\<rparr>
        [keyboard_event 1 65 30 0 256, keyboard_event 2 66 30 0 256, keyboard_event 3 67 30 0 256]
      = Inr \<lparr>rb_buffer = Some [keyboard_event 1 65 30 0 256, keyboard_event 2 66 30 0 256, keyboard_event 3 67 30 0 256, zero_event],
          rb_capacity = 4, rb_mask = 3, rb_head = 3, rb_tail = 0\<rparr>
   \<and> (\<exists>rb2. RingBuffer_ReadBatch \<lparr>rb_buffer = Some [keyboard_event 1 65 30 0 256, keyboard_event 2 66 30 0 256, keyboard_event 3 67 30 0 256, zero_event],
          rb_capacity = 4, rb_mask = 3, rb_head = 3, rb_tail = 0\<rparr> 3
      = Inr (3, [keyboard_event 1 65 30 0 256, keyboard_event 2 66 30 0 256, keyboard_event 3 67 30 0 256], rb2))"
proof -
  have init: "RingBuffer_Init True \<lparr>rb_buffer = None, rb_capacity = 0, rb_mask = 0, rb_head = 0, rb_tail = 0\<rparr> 4
       \<lparr>heap_allocs = 0, heap_frees = 0, installed = []\<rparr>
     = Some (True, \<lparr>rb_buffer = Some [zero_event, zero_event, zero_event, zero_event],
          rb_capacity = 4, rb_mask = 3, rb_head = 0, rb_tail = 0\<rparr>,
         \<lparr>heap_allocs = 1, heap_frees = 0, installed = []\<rparr>)"
    by code_simp
  have len: "length [keyboard_event 1 65 30 0 256, keyboard_event 2 66 30 0 256, keyboard_event 3 67 30 0 256]
      < unat (rb_capacity \<lparr>rb_buffer = Some [zero_event, zero_event, zero_event, zero_event],
          rb_capacity = 4, rb_mask = 3, rb_head = 0, rb_tail = 0\<rparr>)"
    by simp
  have w: "write_all \<lparr>rb_buffer = Some [zero_event, zero_event, zero_event, zero_event],
          rb_capacity = 4, rb_mask = 3, rb_head = 0, rb_tail = 0\<rparr>
        [keyboard_event 1 65 30 0 256, keyboard_event 2 66 30 0 256, keyboard_event 3 67 30 0 256]
      = Inr \<lparr>rb_buffer = Some [keyboard_event 1 65 30 0 256, keyboard_event 2 66 30 0 256, keyboard_event 3 67 30 0 256, zero_event],
          rb_capacity = 4, rb_mask = 3, rb_head = 3, rb_tail = 0\<rparr>"
    by code_simp
  from write_then_read_back [OF init len]
  have "\<exists>rb2. RingBuffer_ReadBatch \<lparr>rb_buffer = Some [keyboard_event 1 65 30 0 256, keyboard_event 2 66 30 0 256, keyboard_event 3 67 30 0 256, zero_event],
          rb_capacity = 4, rb_mask = 3, rb_head = 3, rb_tail = 0\<rparr> 3
      = Inr (3, [keyboard_event 1 65 30 0 256, keyboard_event 2 66 30 0 256, keyboard_event 3 67 30 0 256], rb2)"
    unfolding w by simp
  with init len w show ?thesis by simp
qed

text \<open>
  C1 as stated fails for \<open>N\<close> equal to the capacity: with capacity 2, writing two events
  and reading two returns only the second.
\<close>

theorem write_capacity_events_counterexample:
  "RingBuffer_Init True \<lparr>rb_buffer = None, rb_capacity = 0, rb_mask = 0, rb_head = 0, rb_tail = 0\<rparr> 2
       \<lparr>heap_allocs = 0, heap_frees = 0, installed = []\<rparr>
     = Some (True, \<lparr>rb_buffer = Some [zero_event, zero_event],
          rb_capacity = 2, rb_mask = 1, rb_head = 0, rb_tail = 0\<rparr>,
         \<lparr>heap_allocs = 1, heap_frees = 0, installed = []\<rparr>)
   \<and> length [keyboard_event 1 65 30 0 256, keyboard_event 2 66 30 0 256]
      \<le> unat (rb_capacity \<lparr>rb_buffer = Some [zero_event, zero_event],
          rb_capacity = 2, rb_mask = 1, rb_head = 0, rb_tail = 0\<rparr>)
   \<and> write_all \<lparr>rb_buffer = Some [zero_event, zero_event],
          rb_capacity = 2, rb_mask = 1, rb_head = 0, rb_tail = 0\<rparr>
        [keyboard_event 1 65 30 0 256, keyboard_event 2 66 30 0 256]
      = Inr \<lparr>rb_buffer = Some [keyboard_event 1 65 30 0 256, keyboard_event 2 66 30 0 256],
          rb_capacity = 2, rb_mask = 1, rb_head = 0, rb_tail = 1\<rparr>
   \<and> RingBuffer_ReadBatch \<lparr>rb_buffer = Some [keyboard_event 1 65 30 0 256, keyboard_event 2 66 30 0 256],
          rb_capacity = 2, rb_mask = 1, rb_head = 0, rb_tail = 1\<rparr> 2
      = Inr (1, [keyboard_event 2 66 30 0 256],
          \<lparr>rb_buffer = Some [keyboard_event 1 65 30 0 256, keyboard_event 2 66 30 0 256],
          rb_capacity = 2, rb_mask = 1, rb_head = 0, rb_tail = 0\<rparr>)"
proof -
  have init: "RingBuffer_Init True \<lparr>rb_buffer = None, rb_capacity = 0, rb_mask = 0, rb_head = 0, rb_tail = 0\<rparr> 2
       \<lparr>heap_allocs = 0, heap_frees = 0, installed = []\<rparr>
     = Some (True, \<lparr>rb_buffer = Some [zero_event, zero_event],
          rb_capacity = 2, rb_mask = 1, rb_head = 0, rb_tail = 0\<rparr>,
         \<lparr>heap_allocs = 1, heap_frees = 0, installed = []\<rparr>)"
    by code_simp
  have w: "write_all \<lparr>rb_buffer = Some [zero_event, zero_event],
          rb_capacity = 2, rb_mask = 1, rb_head = 0, rb_tail = 0\<rparr>
        [keyboard_event 1 65 30 0 256, keyboard_event 2 66 30 0 256]
      = Inr \<lparr>rb_buffer = Some [keyboard_event 1 65 30 0 256, keyboard_event 2 66 30 0 256],
          rb_capacity = 2, rb_mask = 1, rb_head = 0, rb_tail = 1\<rparr>"
    by code_simp
  have r: "RingBuffer_ReadBatch \<lparr>rb_buffer = Some [keyboard_event 1 65 30 0 256, keyboard_event 2 66 30 0 256],
          rb_capacity = 2, rb_mask = 1, rb_head = 0, rb_tail = 1\<rparr> 2
      = Inr (1, [keyboard_event 2 66 30 0 256],
          \<lparr>rb_buffer = Some [keyboard_event 1 65 30 0 256, keyboard_event 2 66 30 0 256],
          rb_capacity = 2, rb_mask = 1, rb_head = 0, rb_tail = 0\<rparr>)"
    by code_simp
  from init w r show ?thesis by simp
qed

text \<open>
  C2. \<open>RingBuffer_Init\<close> with the request 10 (and the allocation granted) gives capacity
  16, and after 20 calls of \<open>RingBuffer_Write\<close>, whatever the 20 events are,
  \<open>RingBuffer_ReadBatch\<close> asking for 16 returns the count 15 and the last 15 events
  written, in the order they were written.
\<close>

theorem overflow_example:
  assumes "length es = 20"
  shows "\<exists>rb os' rb1 rb2. RingBuffer_Init True rb0 10 os = Some (True, rb, os')
           \<and> rb_capacity rb = 16
           \<and> write_all rb es = Inr rb1
           \<and> RingBuffer_ReadBatch rb1 16 = Inr (15, drop 5 es, rb2)"
proof -
  have "unat (10 :: 32 word) \<le> 2 ^ 31" by simp
  have loop: "RingBuffer_Init_loop 1 10 = Some 16"
    by (simp add: RingBuffer_Init_loop.simps)
  let ?rb = "rb0\<lparr>rb_buffer := Some (replicate 16 zero_event), rb_capacity := 16,
                      rb_mask := 15, rb_head := 0, rb_tail := 0\<rparr>"
  let ?os' = "os\<lparr>heap_allocs := heap_allocs os + 1\<rparr>"
  have init: "RingBuffer_Init True rb0 10 os = Some (True, ?rb, ?os')"
    by (simp add: RingBuffer_Init_def loop HeapAlloc_def)
  note wf = RingBuffer_Init_wf(1) [OF init] and empty = RingBuffer_Init_wf(2) [OF init]
  have cap: "rb_capacity ?rb \<noteq> 1" by simp
  from write_all_keeps_last [OF wf cap, of es] obtain rb1 where
    w: "write_all ?rb es = Inr rb1" and wf1: "rb_wf rb1"
    and c1: "rb_contents rb1 = drop 5 es"
    using assms by (auto simp: empty)
  from RingBuffer_ReadBatch_wf [OF wf1, of 16] obtain c rb2 where
    r: "RingBuffer_ReadBatch rb1 16 = Inr (c, take 16 (drop 5 es), rb2)"
    and cnt: "unat c = min 16 (length (drop 5 es))"
    by (auto simp: c1)
  from cnt assms have "unat c = unat (15 :: 32 word)" by simp
  then have c15: "c = 15" by (simp only: word_unat_eq_iff)
  have all: "RingBuffer_Init True rb0 10 os = Some (True, ?rb, ?os')
           \<and> rb_capacity ?rb = 16
           \<and> write_all ?rb es = Inr rb1
           \<and> RingBuffer_ReadBatch rb1 16 = Inr (15, drop 5 es, rb2)"
    using init w r c15 assms by simp
  show ?thesis
    by (intro exI [of _ ?rb] exI [of _ ?os'] exI [of _ rb1] exI [of _ rb2]) (rule all)
qed

theorem overflow_example_witness:
  "length
      [keyboard_event 1 65 30 0 256, keyboard_event 2 66 30 0 256,
       keyboard_event 3 67 30 0 256, keyboard_event 4 68 30 0 256,
       keyboard_event 5 69 30 0 256, keyboard_event 6 70 30 0 256,
       keyboard_event 7 71 30 0 256, keyboard_event 8 72 30 0 256,
       keyboard_event 9 73 30 0 256, keyboard_event 10 74 30 0 256,
       keyboard_event 11 75 30 0 256, keyboard_event 12 76 30 0 256,
       keyboard_event 13 77 30 0 256, keyboard_event 14 78 30 0 256,
       keyboard_event 15 79 30 0 256, keyboard_event 16 80 30 0 256,
       keyboard_event 17 81 30 0 256, keyboard_event 18 82 30 0 256,
       keyboard_event 19 83 30 0 256, keyboard_event 20 84 30 0 256] = 20
   \<and> (\<exists>rb os' rb1 rb2.
         RingBuffer_Init True \<lparr>rb_buffer = None, rb_capacity = 0, rb_mask = 0, rb_head = 0, rb_tail = 0\<rparr> 10
           \<lparr>heap_allocs = 0, heap_frees = 0, installed = []\<rparr> = Some (True, rb, os')
       \<and> rb_capacity rb = 16
       \<and> write_all rb
      [keyboard_event 1 65 30 0 256, keyboard_event 2 66 30 0 256,
       keyboard_event 3 67 30 0 256, keyboard_event 4 68 30 0 256,
       keyboard_event 5 69 30 0 256, keyboard_event 6 70 30 0 256,
       keyboard_event 7 71 30 0 256, keyboard_event 8 72 30 0 256,
       keyboard_event 9 73 30 0 256, keyboard_event 10 74 30 0 256,
       keyboard_event 11 75 30 0 256, keyboard_event 12 76 30 0 256,
       keyboard_event 13 77 30 0 256, keyboard_event 14 78 30 0 256,
       keyboard_event 15 79 30 0 256, keyboard_event 16 80 30 0 256,
       keyboard_event 17 81 30 0 256, keyboard_event 18 82 30 0 256,
       keyboard_event 19 83 30 0 256, keyboard_event 20 84 30 0 256] = Inr rb1
       \<and> RingBuffer_ReadBatch rb1 16
           = Inr (15,
                   [keyboard_event 6 70 30 0 256, keyboard_event 7 71 30 0 256,
                    keyboard_event 8 72 30 0 256, keyboard_event 9 73 30 0 256,
                    keyboard_event 10 74 30 0 256, keyboard_event 11 75 30 0 256,
                    keyboard_event 12 76 30 0 256, keyboard_event 13 77 30 0 256,
                    keyboard_event 14 78 30 0 256, keyboard_event 15 79 30 0 256,
                    keyboard_event 16 80 30 0 256, keyboard_event 17 81 30 0 256,
                    keyboard_event 18 82 30 0 256, keyboard_event 19 83 30 0 256,
                    keyboard_event 20 84 30 0 256], rb2))"
proof -
  have len: "length
      [keyboard_event 1 65 30 0 256, keyboard_event 2 66 30 0 256,
       keyboard_event 3 67 30 0 256, keyboard_event 4 68 30 0 256,
       keyboard_event 5 69 30 0 256, keyboard_event 6 70 30 0 256,
       keyboard_event 7 71 30 0 256, keyboard_event 8 72 30 0 256,
       keyboard_event 9 73 30 0 256, keyboard_event 10 74 30 0 256,
       keyboard_event 11 75 30 0 256, keyboard_event 12 76 30 0 256,
       keyboard_event 13 77 30 0 256, keyboard_event 14 78 30 0 256,
       keyboard_event 15 79 30 0 256, keyboard_event 16 80 30 0 256,
       keyboard_event 17 81 30 0 256, keyboard_event 18 82 30 0 256,
       keyboard_event 19 83 30 0 256, keyboard_event 20 84 30 0 256] = 20"
    by simp
  have d: "drop 5
      [keyboard_event 1 65 30 0 256, keyboard_event 2 66 30 0 256,
       keyboard_event 3 67 30 0 256, keyboard_event 4 68 30 0 256,
       keyboard_event 5 69 30 0 256, keyboard_event 6 70 30 0 256,
       keyboard_event 7 71 30 0 256, keyboard_event 8 72 30 0 256,
       keyboard_event 9 73 30 0 256, keyboard_event 10 74 30 0 256,
       keyboard_event 11 75 30 0 256, keyboard_event 12 76 30 0 256,
       keyboard_event 13 77 30 0 256, keyboard_event 14 78 30 0 256,
       keyboard_event 15 79 30 0 256, keyboard_event 16 80 30 0 256,
       keyboard_event 17 81 30 0 256, keyboard_event 18 82 30 0 256,
       keyboard_event 19 83 30 0 256, keyboard_event 20 84 30 0 256]
    = [keyboard_event 6 70 30 0 256, keyboard_event 7 71 30 0 256,
                    keyboard_event 8 72 30 0 256, keyboard_event 9 73 30 0 256,
                    keyboard_event 10 74 30 0 256, keyboard_event 11 75 30 0 256,
                    keyboard_event 12 76 30 0 256, keyboard_event 13 77 30 0 256,
                    keyboard_event 14 78 30 0 256, keyboard_event 15 79 30 0 256,
                    keyboard_event 16 80 30 0 256, keyboard_event 17 81 30 0 256,
                    keyboard_event 18 82 30 0 256, keyboard_event 19 83 30 0 256,
                    keyboard_event 20 84 30 0 256]"
    by simp
  from overflow_example [OF len, of "\<lparr>rb_buffer = None, rb_capacity = 0, rb_mask = 0, rb_head = 0, rb_tail = 0\<rparr>"
      "\<lparr>heap_allocs = 0, heap_frees = 0, installed = []\<rparr>"]
  show ?thesis by (simp only: len d simp_thms)
qed

end
